theory Spec2Isabelle
  imports Main "HOL-Library.Sublist"
begin

section \<open>Values, arguments and the outside world\<close>

text \<open>
  The program is \<^verbatim>\<open>eval/main.py\<close>: an orchestrator that creates an output directory,
  loads the requested benchmark datasets, builds one inference engine and, for each
  loaded dataset, generates, scores and writes a JSON report.

  The orchestrator never computes with a float; it passes them on and prints them.
  A float is therefore kept as the decimal it was written as: \<open>PyFloat m e\<close> stands for
  the double nearest to \<open>m * 10 ^ e\<close>.
\<close>

datatype pyfloat = PyFloat int int

text \<open>Python values that reach \<^verbatim>\<open>json.dump\<close>; a dict keeps its insertion order.\<close>

datatype pyval =
    PNone
  | PBool bool
  | PInt int
  | PFloat pyfloat
  | PStr string
  | PList "pyval list"
  | PDict "(string \<times> pyval) list"

text \<open>Exceptions. None of them is caught anywhere in \<^verbatim>\<open>main.py\<close>.\<close>

datatype error =
    DataLoadError
  | EngineError
  | FileNotFoundError
  | FileExistsError
  | IsADirectoryError
  | KeyError string
  | ValueError
  | TypeError
  | AttributeError
  | OtherError string

text \<open>The namespace returned by \<^verbatim>\<open>parse_arguments\<close>, one field per declared option.\<close>

record args =
  model :: string
  output_dir :: string
  max_tokens :: int
  min_pixels :: int
  max_pixels :: int
  max_model_len :: int
  temperature :: pyfloat
  top_p :: pyfloat
  repetition_penalty :: pyfloat
  tensor_parallel_size :: int
  eval_threads :: int
  system_prompt :: string
  datasets :: string
  data_path :: string

text \<open>
  The two required options are parameters; every other field is the \<^verbatim>\<open>default=\<close> of its
  \<^verbatim>\<open>add_argument\<close> call. The backslash of \<^verbatim>\<open>\boxed\<close> is character 0x5C.
\<close>

definition default_system_prompt :: string where
  "default_system_prompt =
     ''You FIRST think about the reasoning process as an internal monologue and then provide the final answer. ''
     @ ''The reasoning process MUST BE enclosed within <think> </think> tags. ''
     @ ''The final answer MUST BE put in '' @ [CHR 0x5C] @ ''boxed{}.''"

definition default_args :: "string \<Rightarrow> string \<Rightarrow> args" where
  "default_args m od =
     \<lparr> model = m, output_dir = od, max_tokens = 2048, min_pixels = 262144,
       max_pixels = 1000000, max_model_len = 8192, temperature = PyFloat 0 0,
       top_p = PyFloat 95 (-2), repetition_penalty = PyFloat 1 0,
       tensor_parallel_size = 2, eval_threads = 32,
       system_prompt = default_system_prompt, datasets = ''all'',
       data_path = ''NoisyRollout/eval/data'' \<rparr>"

text \<open>\<^verbatim>\<open>vars(args)\<close>: the namespace as a dict, in the order the options were declared.\<close>

definition vars :: "args \<Rightarrow> (string \<times> pyval) list" where
  "vars a =
     [ (''model'', PStr (model a)),
       (''output_dir'', PStr (output_dir a)),
       (''max_tokens'', PInt (max_tokens a)),
       (''min_pixels'', PInt (min_pixels a)),
       (''max_pixels'', PInt (max_pixels a)),
       (''max_model_len'', PInt (max_model_len a)),
       (''temperature'', PFloat (temperature a)),
       (''top_p'', PFloat (top_p a)),
       (''repetition_penalty'', PFloat (repetition_penalty a)),
       (''tensor_parallel_size'', PInt (tensor_parallel_size a)),
       (''eval_threads'', PInt (eval_threads a)),
       (''system_prompt'', PStr (system_prompt a)),
       (''datasets'', PStr (datasets a)),
       (''data_path'', PStr (data_path a)) ]"

text \<open>The keyword arguments of the two \<^verbatim>\<open>vllm\<close> constructors.\<close>

record sampling_params =
  sp_temperature :: pyfloat
  sp_top_p :: pyfloat
  sp_max_tokens :: int
  sp_repetition_penalty :: pyfloat

record llm_config =
  llm_model :: string
  llm_tensor_parallel_size :: int
  llm_dtype :: string
  llm_gpu_memory_utilization :: pyfloat
  llm_max_model_len :: int

text \<open>
  The collaborators imported from \<^verbatim>\<open>utils.data_loaders\<close>, \<^verbatim>\<open>utils.processing\<close> and
  \<^verbatim>\<open>vllm\<close> are not part of the file; they are parameters. Each may raise. The engine is
  a mutable object: \<open>generate\<close> takes the engine as it is and returns it as the call left
  it. \<open>SamplingParams_post_init\<close> is the validation the constructor runs on its arguments.
\<close>

record 'llm env =
  load_geo3k_dataset :: "string \<Rightarrow> error + pyval list"
  load_wemath_dataset :: "string \<Rightarrow> error + pyval list"
  load_mathvista_dataset :: "string \<Rightarrow> error + pyval list"
  load_mathverse_dataset :: "string \<Rightarrow> error + pyval list"
  load_mathvision_dataset :: "string \<Rightarrow> error + pyval list"
  load_hallubench_dataset :: "string \<Rightarrow> error + pyval list"
  prepare_prompts :: "string \<Rightarrow> pyval list \<Rightarrow> args \<Rightarrow> error + (pyval list \<times> pyval list)"
  process_outputs :: "pyval list \<Rightarrow> pyval list \<Rightarrow> int \<Rightarrow> error + pyval list"
  calculate_metrics :: "pyval list \<Rightarrow> error + (string \<times> pyval) list"
  LLM :: "llm_config \<Rightarrow> error + 'llm"
  SamplingParams_post_init :: "sampling_params \<Rightarrow> error option"
  generate :: "'llm \<Rightarrow> pyval list \<Rightarrow> sampling_params \<Rightarrow> error + (pyval list \<times> 'llm)"

text \<open>What \<^verbatim>\<open>print\<close> writes, one constructor per statement, with the interpolated values.\<close>

datatype message =
    MsgLoaded nat string
  | MsgNoDatasets
  | MsgInitializing string
  | MsgResults string
  | MsgTotalSamples nat
  | MsgAccuracy pyval
  | MsgTaskHeader
  | MsgTaskAccuracy string pyval
  | MsgBlank
  | MsgAllSaved string

text \<open>
  What the run does to the outside, in the order it does it. \<open>EvLoad\<close>, \<open>EvLLM\<close>,
  \<open>EvPrepare\<close> and \<open>EvGenerate\<close> are recorded when the call is made, whether or not it
  returns; \<open>EvMakedirs\<close> likewise; \<open>EvWrite\<close> is recorded when the file has been written.
\<close>

datatype 'llm event =
    EvMakedirs string
  | EvLoad string string
  | EvPrint message
  | EvLLM llm_config
  | EvPrepare string
  | EvGenerate 'llm "pyval list" sampling_params
  | EvWrite string pyval

text \<open>
  The file system holds directory names and documents (a report is kept as the value
  that was dumped, not as its text), and the world adds the trace of events.
\<close>

record 'llm world =
  dirs :: "string set"
  files :: "string \<rightharpoonup> pyval"
  trace :: "'llm event list"

definition emit :: "'llm event \<Rightarrow> 'llm world \<Rightarrow> 'llm world" where
  "emit e w = w\<lparr>trace := trace w @ [e]\<rparr>"

section \<open>Library calls\<close>

text \<open>\<^verbatim>\<open>str.split(",")\<close>: never empty; an empty string gives one empty piece.\<close>

fun split_comma :: "string \<Rightarrow> string list" where
  "split_comma [] = [[]]"
| "split_comma (c # cs) =
     (if c = CHR '','' then [] # split_comma cs
      else (case split_comma cs of
              [] \<Rightarrow> [[c]]
            | p # ps \<Rightarrow> (c # p) # ps))"

text \<open>
  \<^verbatim>\<open>d[k] = v\<close> on an insertion-ordered dict: a key already present keeps its place.
\<close>

fun dict_set :: "'k \<Rightarrow> 'v \<Rightarrow> ('k \<times> 'v) list \<Rightarrow> ('k \<times> 'v) list" where
  "dict_set k v [] = [(k, v)]"
| "dict_set k v ((k', v') # d) =
     (if k' = k then (k, v) # d else (k', v') # dict_set k v d)"

text \<open>\<^verbatim>\<open>posixpath.join\<close> of two components.\<close>

definition os_path_join :: "string \<Rightarrow> string \<Rightarrow> string" where
  "os_path_join a b =
     (if b \<noteq> [] \<and> hd b = CHR ''/'' then b
      else if a = [] \<or> last a = CHR ''/'' then a @ b
      else a @ ''/'' @ b)"

definition rstrip_sep :: "string \<Rightarrow> string" where
  "rstrip_sep p = rev (dropWhile (\<lambda>c. c = CHR ''/'') (rev p))"

text \<open>\<^verbatim>\<open>posixpath.dirname\<close>.\<close>

definition dirname :: "string \<Rightarrow> string" where
  "dirname p =
     (let head = rev (dropWhile (\<lambda>c. c \<noteq> CHR ''/'') (rev p))
      in if head \<noteq> [] \<and> rstrip_sep head \<noteq> [] then rstrip_sep head else head)"

text \<open>
  A directory is known by its name without trailing separators (\<^verbatim>\<open>out/\<close> and \<^verbatim>\<open>out\<close>
  are one directory); a name made of separators only is the root and is kept.
\<close>

definition dir_key :: "string \<Rightarrow> string" where
  "dir_key p = (if rstrip_sep p = [] then p else rstrip_sep p)"

text \<open>
  \<^verbatim>\<open>os.makedirs(p, exist_ok=True)\<close>: an empty name is refused, an existing directory is
  accepted as it is, a file of that name is in the way, and otherwise the directory
  is made. (The real call also makes the missing parents; only the leaf is recorded.)
\<close>

definition os_makedirs :: "string \<Rightarrow> 'llm world \<Rightarrow> error + 'llm world" where
  "os_makedirs p w =
     (if p = [] then Inl FileNotFoundError
      else if dir_key p \<in> dirs w then Inr w
      else if files w (dir_key p) \<noteq> None then Inl FileExistsError
      else Inr (w\<lparr>dirs := insert (dir_key p) (dirs w)\<rparr>))"

text \<open>
  \<^verbatim>\<open>with open(p, 'w') as f: json.dump(doc, f)\<close>: refused when \<open>p\<close> is a directory or
  its parent directory is missing; otherwise the file holds \<open>doc\<close> afterwards. Every
  \<open>pyval\<close> is serialisable, so the dump itself cannot fail.
\<close>

definition open_write :: "string \<Rightarrow> pyval \<Rightarrow> 'llm world \<Rightarrow> error + 'llm world" where
  "open_write p doc w =
     (if dir_key p \<in> dirs w then Inl IsADirectoryError
      else if dirname p \<noteq> [] \<and> dirname p \<notin> dirs w then Inl FileNotFoundError
      else Inr (emit (EvWrite p doc) (w\<lparr>files := (files w)(p \<mapsto> doc)\<rparr>)))"

text \<open>
  The format specification \<^verbatim>\<open>:.4f\<close>: numbers (and booleans) format, a string raises
  \<^verbatim>\<open>ValueError\<close>, anything else \<^verbatim>\<open>TypeError\<close>.
\<close>

fun format_4f :: "pyval \<Rightarrow> error option" where
  "format_4f (PFloat _) = None"
| "format_4f (PInt _) = None"
| "format_4f (PBool _) = None"
| "format_4f (PStr _) = Some ValueError"
| "format_4f _ = Some TypeError"

section \<open>The orchestrator\<close>

definition all_datasets :: "string list" where
  "all_datasets = [''geo3k'', ''wemath'', ''mathvista'', ''mathverse'', ''mathvision'', ''hallubench'']"

definition datasets_to_eval :: "args \<Rightarrow> string list" where
  "datasets_to_eval a =
     (if datasets a \<noteq> ''all'' then split_comma (datasets a) else all_datasets)"

text \<open>
  One branch of the loading chain: call the loader, store its samples under the key,
  print the count.
\<close>

definition load_with ::
  "(string \<Rightarrow> error + pyval list) \<Rightarrow> string \<Rightarrow> string \<Rightarrow> args \<Rightarrow>
   (string \<times> pyval list) list \<times> 'llm world \<Rightarrow>
   (error + (string \<times> pyval list) list) \<times> 'llm world" where
  "load_with loader key shown a st =
     (case st of (all_samples, w) \<Rightarrow>
        (let w1 = emit (EvLoad key (data_path a)) w
         in case loader (data_path a) of
              Inl e \<Rightarrow> (Inl e, w1)
            | Inr samples \<Rightarrow>
                (Inr (dict_set key samples all_samples),
                 emit (EvPrint (MsgLoaded (length samples) shown)) w1)))"

text \<open>The body of the first loop: an \<^verbatim>\<open>if\<close>/\<^verbatim>\<open>elif\<close> chain with no \<^verbatim>\<open>else\<close>.\<close>

definition load_one ::
  "'llm env \<Rightarrow> args \<Rightarrow> string \<Rightarrow> (string \<times> pyval list) list \<times> 'llm world \<Rightarrow>
   (error + (string \<times> pyval list) list) \<times> 'llm world" where
  "load_one env a dataset_name st =
     (if dataset_name = ''geo3k'' then
        load_with (load_geo3k_dataset env) ''geo3k'' ''Geo3K'' a st
      else if dataset_name = ''wemath'' then
        load_with (load_wemath_dataset env) ''wemath'' ''WeMath'' a st
      else if dataset_name = ''mathvista'' then
        load_with (load_mathvista_dataset env) ''mathvista'' ''MathVista'' a st
      else if dataset_name = ''mathverse'' then
        load_with (load_mathverse_dataset env) ''mathverse'' ''MathVerse'' a st
      else if dataset_name = ''mathvision'' then
        load_with (load_mathvision_dataset env) ''mathvision'' ''MathVision'' a st
      else if dataset_name = ''hallubench'' then
        load_with (load_hallubench_dataset env) ''hallubench'' ''HalluBench'' a st
      else (Inr (fst st), snd st))"

fun load_loop ::
  "'llm env \<Rightarrow> args \<Rightarrow> string list \<Rightarrow> (string \<times> pyval list) list \<times> 'llm world \<Rightarrow>
   (error + (string \<times> pyval list) list) \<times> 'llm world" where
  "load_loop env a [] st = (Inr (fst st), snd st)"
| "load_loop env a (n # ns) st =
     (case load_one env a n st of
        (Inl e, w) \<Rightarrow> (Inl e, w)
      | (Inr all_samples, w) \<Rightarrow> load_loop env a ns (all_samples, w))"

text \<open>
  The printing at the end of an iteration. \<^verbatim>\<open>metrics['accuracy']\<close> raises \<^verbatim>\<open>KeyError\<close>
  when the key is missing; \<^verbatim>\<open>.items()\<close> exists on a dict only.
\<close>

fun print_tasks :: "(string \<times> pyval) list \<Rightarrow> 'llm world \<Rightarrow> (error + unit) \<times> 'llm world" where
  "print_tasks [] w = (Inr (), w)"
| "print_tasks ((task, acc) # rest) w =
     (case format_4f acc of
        Some e \<Rightarrow> (Inl e, w)
      | None \<Rightarrow> print_tasks rest (emit (EvPrint (MsgTaskAccuracy task acc)) w))"

definition print_summary ::
  "string \<Rightarrow> pyval list \<Rightarrow> (string \<times> pyval) list \<Rightarrow> 'llm world \<Rightarrow> (error + unit) \<times> 'llm world" where
  "print_summary dataset_name results metrics w =
     (let w1 = emit (EvPrint (MsgResults dataset_name)) w;
          w2 = emit (EvPrint (MsgTotalSamples (length results))) w1
      in case map_of metrics ''accuracy'' of
           None \<Rightarrow> (Inl (KeyError ''accuracy''), w2)
         | Some acc \<Rightarrow>
             (case format_4f acc of
                Some e \<Rightarrow> (Inl e, w2)
              | None \<Rightarrow>
                  (let w3 = emit (EvPrint (MsgAccuracy acc)) w2
                   in case map_of metrics ''sub_accuracies'' of
                        None \<Rightarrow> (Inr (), emit (EvPrint MsgBlank) w3)
                      | Some sub \<Rightarrow>
                          (let w4 = emit (EvPrint MsgTaskHeader) w3
                           in case sub of
                                PDict items \<Rightarrow>
                                  (case print_tasks items w4 of
                                     (Inl e, w5) \<Rightarrow> (Inl e, w5)
                                   | (Inr u, w5) \<Rightarrow> (Inr (), emit (EvPrint MsgBlank) w5))
                              | _ \<Rightarrow> (Inl AttributeError, w4)))))"

definition report_path :: "args \<Rightarrow> string \<Rightarrow> string" where
  "report_path a dataset_name = os_path_join (output_dir a) (dataset_name @ ''.json'')"

text \<open>
  One iteration of the second loop. (The dict \<^verbatim>\<open>all_results\<close> is assigned here and never
  read; it is left out.)
\<close>

definition eval_one ::
  "'llm env \<Rightarrow> args \<Rightarrow> sampling_params \<Rightarrow> string \<times> pyval list \<Rightarrow> 'llm \<times> 'llm world \<Rightarrow>
   (error + 'llm) \<times> 'llm world" where
  "eval_one env a sampling item st =
     (case item of (dataset_name, samples) \<Rightarrow>
      case st of (llm, w) \<Rightarrow>
        (let w1 = emit (EvPrepare dataset_name) w
         in case prepare_prompts env dataset_name samples a of
              Inl e \<Rightarrow> (Inl e, w1)
            | Inr (prompts, metadata) \<Rightarrow>
                (let w2 = emit (EvGenerate llm prompts sampling) w1
                 in case generate env llm prompts sampling of
                      Inl e \<Rightarrow> (Inl e, w2)
                    | Inr (outputs, llm') \<Rightarrow>
                        (case process_outputs env outputs metadata (eval_threads a) of
                           Inl e \<Rightarrow> (Inl e, w2)
                         | Inr results \<Rightarrow>
                             (case calculate_metrics env results of
                                Inl e \<Rightarrow> (Inl e, w2)
                              | Inr metrics \<Rightarrow>
                                  (let output_dict =
                                         [ (''results'', PList results),
                                           (''metrics'', PDict metrics),
                                           (''config'', PDict (vars a)) ];
                                       output_path = report_path a dataset_name
                                   in case open_write output_path (PDict output_dict) w2 of
                                        Inl e \<Rightarrow> (Inl e, w2)
                                      | Inr w3 \<Rightarrow>
                                          (case print_summary dataset_name results metrics w3 of
                                             (Inl e, w4) \<Rightarrow> (Inl e, w4)
                                           | (Inr u, w4) \<Rightarrow> (Inr llm', w4))))))))"

fun eval_loop ::
  "'llm env \<Rightarrow> args \<Rightarrow> sampling_params \<Rightarrow> (string \<times> pyval list) list \<Rightarrow> 'llm \<times> 'llm world \<Rightarrow>
   (error + 'llm) \<times> 'llm world" where
  "eval_loop env a sampling [] st = (Inr (fst st), snd st)"
| "eval_loop env a sampling (item # items) st =
     (case eval_one env a sampling item st of
        (Inl e, w) \<Rightarrow> (Inl e, w)
      | (Inr llm, w) \<Rightarrow> eval_loop env a sampling items (llm, w))"

definition llm_config_of :: "args \<Rightarrow> llm_config" where
  "llm_config_of a =
     \<lparr> llm_model = model a, llm_tensor_parallel_size = tensor_parallel_size a,
       llm_dtype = ''bfloat16'', llm_gpu_memory_utilization = PyFloat 7 (-1),
       llm_max_model_len = max_model_len a \<rparr>"

definition sampling_of :: "args \<Rightarrow> sampling_params" where
  "sampling_of a =
     \<lparr> sp_temperature = temperature a, sp_top_p = top_p a,
       sp_max_tokens = max_tokens a, sp_repetition_penalty = repetition_penalty a \<rparr>"

text \<open>
  \<^verbatim>\<open>main\<close>, from the parsed arguments on. The result is what the call did (an uncaught
  exception or a plain return) and the world it left.
\<close>

definition main :: "'llm env \<Rightarrow> args \<Rightarrow> 'llm world \<Rightarrow> (error + unit) \<times> 'llm world" where
  "main env a w0 =
     (let w1 = emit (EvMakedirs (output_dir a)) w0
      in case os_makedirs (output_dir a) w1 of
           Inl e \<Rightarrow> (Inl e, w1)
         | Inr w2 \<Rightarrow>
             (case load_loop env a (datasets_to_eval a) ([], w2) of
                (Inl e, w3) \<Rightarrow> (Inl e, w3)
              | (Inr all_samples, w3) \<Rightarrow>
                  if all_samples = [] then (Inr (), emit (EvPrint MsgNoDatasets) w3)
                  else
                    (let w4 = emit (EvPrint (MsgInitializing (model a))) w3;
                         w5 = emit (EvLLM (llm_config_of a)) w4
                     in case LLM env (llm_config_of a) of
                          Inl e \<Rightarrow> (Inl e, w5)
                        | Inr llm \<Rightarrow>
                            (case SamplingParams_post_init env (sampling_of a) of
                               Some e \<Rightarrow> (Inl e, w5)
                             | None \<Rightarrow>
                                 (case eval_loop env a (sampling_of a) all_samples (llm, w5) of
                                    (Inl e, w6) \<Rightarrow> (Inl e, w6)
                                  | (Inr llm', w6) \<Rightarrow>
                                      (Inr (), emit (EvPrint (MsgAllSaved (output_dir a))) w6))))))"

text \<open>
  The script ends with \<^verbatim>\<open>main()\<close> and nothing else: the interpreter exits with status 0
  when \<open>main\<close> returns and with status 1 when an exception escapes.
\<close>

definition exit_code :: "error + unit \<Rightarrow> nat" where
  "exit_code r = (case r of Inl e \<Rightarrow> 1 | Inr u \<Rightarrow> 0)"

section \<open>Reading the trace\<close>

text \<open>The calls of one kind that a trace holds, in the order they were made.\<close>

fun load_of :: "'llm event \<Rightarrow> string list" where
  "load_of (EvLoad n p) = [n]"
| "load_of _ = []"

fun prepare_of :: "'llm event \<Rightarrow> string list" where
  "prepare_of (EvPrepare n) = [n]"
| "prepare_of _ = []"

fun write_of :: "'llm event \<Rightarrow> string list" where
  "write_of (EvWrite p doc) = [p]"
| "write_of _ = []"

fun generate_of :: "'llm event \<Rightarrow> ('llm \<times> pyval list \<times> sampling_params) list" where
  "generate_of (EvGenerate l ps sp) = [(l, ps, sp)]"
| "generate_of _ = []"

fun llm_of :: "'llm event \<Rightarrow> llm_config list" where
  "llm_of (EvLLM cfg) = [cfg]"
| "llm_of _ = []"

definition loaded_names :: "'llm event list \<Rightarrow> string list" where
  "loaded_names tr = concat (map load_of tr)"

definition prepared_names :: "'llm event list \<Rightarrow> string list" where
  "prepared_names tr = concat (map prepare_of tr)"

definition written_paths :: "'llm event list \<Rightarrow> string list" where
  "written_paths tr = concat (map write_of tr)"

definition generate_calls :: "'llm event list \<Rightarrow> ('llm \<times> pyval list \<times> sampling_params) list" where
  "generate_calls tr = concat (map generate_of tr)"

definition llm_inits :: "'llm event list \<Rightarrow> llm_config list" where
  "llm_inits tr = concat (map llm_of tr)"

text \<open>
  The engine is handed on from one \<open>generate\<close> call to the next: the first call of the
  trace receives \<open>cur\<close>, each later call receives the engine as the call before it
  returned it, and no call follows one that raised.
\<close>

fun chained :: "'llm env \<Rightarrow> 'llm \<Rightarrow> 'llm event list \<Rightarrow> bool" where
  "chained env cur [] = True"
| "chained env cur (e # es) =
     (case e of
        EvGenerate l ps sp \<Rightarrow>
          l = cur \<and>
          (case generate env l ps sp of
             Inl err \<Rightarrow> generate_calls es = []
           | Inr (outputs, l') \<Rightarrow> chained env l' es)
      | _ \<Rightarrow> chained env cur es)"

text \<open>The loading chain as a table: the loader a name selects and the name it prints.\<close>

definition loader_of ::
  "'llm env \<Rightarrow> string \<Rightarrow> ((string \<Rightarrow> error + pyval list) \<times> string) option" where
  "loader_of env n =
     (if n = ''geo3k'' then Some (load_geo3k_dataset env, ''Geo3K'')
      else if n = ''wemath'' then Some (load_wemath_dataset env, ''WeMath'')
      else if n = ''mathvista'' then Some (load_mathvista_dataset env, ''MathVista'')
      else if n = ''mathverse'' then Some (load_mathverse_dataset env, ''MathVerse'')
      else if n = ''mathvision'' then Some (load_mathvision_dataset env, ''MathVision'')
      else if n = ''hallubench'' then Some (load_hallubench_dataset env, ''HalluBench'')
      else None)"

text \<open>
  The requested names that the chain knows, in the order of the request, and the same
  list with each name kept at its first request only: the keys of \<^verbatim>\<open>all_samples\<close>.
\<close>

definition requested_known :: "args \<Rightarrow> string list" where
  "requested_known a = filter (\<lambda>n. n \<in> set all_datasets) (datasets_to_eval a)"

fun first_requests :: "string list \<Rightarrow> string list" where
  "first_requests [] = []"
| "first_requests (n # ns) = n # filter (\<lambda>m. m \<noteq> n) (first_requests ns)"

definition evaluated :: "args \<Rightarrow> string list" where
  "evaluated a = first_requests (requested_known a)"

definition insert_key :: "string list \<Rightarrow> string \<Rightarrow> string list" where
  "insert_key ks k = (if k \<in> set ks then ks else ks @ [k])"

text \<open>Every requested dataset that the chain knows loads without raising.\<close>

definition all_loaded :: "'llm env \<Rightarrow> args \<Rightarrow> bool" where
  "all_loaded env a =
     list_all (\<lambda>n. case loader_of env n of
                      None \<Rightarrow> True
                    | Some (f, shown) \<Rightarrow> \<not> isl (f (data_path a)))
       (datasets_to_eval a)"

text \<open>The document of a report: the dict handed to \<^verbatim>\<open>json.dump\<close>.\<close>

definition report_doc :: "pyval list \<Rightarrow> (string \<times> pyval) list \<Rightarrow> args \<Rightarrow> pyval" where
  "report_doc results metrics a =
     PDict [ (''results'', PList results),
             (''metrics'', PDict metrics),
             (''config'', PDict (vars a)) ]"

fun is_load_event :: "'llm event \<Rightarrow> bool" where
  "is_load_event (EvLoad n p) = True"
| "is_load_event (EvPrint (MsgLoaded k shown)) = True"
| "is_load_event _ = False"

section \<open>Sample runs\<close>

text \<open>
  A small world to run the orchestrator in: the engine is a call counter, prompts are
  the samples themselves, the outputs are the prompts, and the metrics are fixed.
\<close>

definition env_ok :: "nat env" where
  "env_ok =
     \<lparr> load_geo3k_dataset = (\<lambda>p. Inr [PStr ''q1'', PStr ''q2'']),
       load_wemath_dataset = (\<lambda>p. Inr []),
       load_mathvista_dataset = (\<lambda>p. Inr [PStr ''q3'']),
       load_mathverse_dataset = (\<lambda>p. Inr [PStr ''q4'']),
       load_mathvision_dataset = (\<lambda>p. Inr [PStr ''q5'']),
       load_hallubench_dataset = (\<lambda>p. Inr [PStr ''q6'']),
       prepare_prompts = (\<lambda>n samples a. Inr (samples, samples)),
       process_outputs = (\<lambda>outputs metadata threads. Inr outputs),
       calculate_metrics = (\<lambda>results. Inr [(''accuracy'', PFloat (PyFloat 0 0))]),
       LLM = (\<lambda>cfg. Inr 0),
       SamplingParams_post_init = (\<lambda>sp. None),
       generate = (\<lambda>llm prompts sp. Inr (prompts, Suc llm)) \<rparr>"

text \<open>The same world with the Geo3K files missing.\<close>

definition env_missing :: "nat env" where
  "env_missing = env_ok\<lparr>load_geo3k_dataset := (\<lambda>p. Inl DataLoadError)\<rparr>"

text \<open>The same world with an engine that fails on its second call.\<close>

definition env_breaks :: "nat env" where
  "env_breaks =
     env_ok\<lparr>generate := (\<lambda>llm prompts sp.
        if llm = 0 then Inr (prompts, Suc llm) else Inl EngineError)\<rparr>"

definition fresh :: "nat world" where
  "fresh = \<lparr>dirs = {}, files = Map.empty, trace = []\<rparr>"

definition args_two :: args where
  "args_two = (default_args ''m'' ''out'')\<lparr>datasets := ''geo3k,wemath''\<rparr>"

definition args_unknown :: args where
  "args_unknown = (default_args ''m'' ''out'')\<lparr>datasets := ''imagenet''\<rparr>"


section \<open>Lemmas\<close>

subsection \<open>The loading chain\<close>

lemma load_one_loader_of:
  "load_one env a n st =
     (case loader_of env n of
        None \<Rightarrow> (Inr (fst st), snd st)
      | Some (f, shown) \<Rightarrow> load_with f n shown a st)"
  by (simp add: load_one_def loader_of_def)

lemma loader_of_None_iff: "loader_of env n = None \<longleftrightarrow> n \<notin> set all_datasets"
  by (simp add: loader_of_def all_datasets_def)

lemma keys_dict_set: "map fst (dict_set k v d) = insert_key (map fst d) k"
  by (induction d) (force simp: insert_key_def)+

lemma set_first_requests: "set (first_requests ns) = set ns"
  by (induction ns) auto

lemma distinct_first_requests: "distinct (first_requests ns)"
  by (induction ns) (auto simp: set_first_requests)


lemma load_with_cases:
  assumes "load_with f key shown a (d, w) = (r, w')"
  shows "(\<exists>e. f (data_path a) = Inl e \<and> r = Inl e \<and> w' = emit (EvLoad key (data_path a)) w)
       \<or> (\<exists>s. f (data_path a) = Inr s \<and> r = Inr (dict_set key s d)
              \<and> w' = emit (EvPrint (MsgLoaded (length s) shown)) (emit (EvLoad key (data_path a)) w))"
  using assms by (auto simp: load_with_def Let_def split: sum.splits)

lemma load_one_cases:
  assumes "load_one env a n (d, w) = (r, w')"
  shows "(n \<notin> set all_datasets \<and> r = Inr d \<and> w' = w)
       \<or> (n \<in> set all_datasets \<and> (\<exists>e. r = Inl e) \<and> w' = emit (EvLoad n (data_path a)) w)
       \<or> (n \<in> set all_datasets \<and> (\<exists>s shown. r = Inr (dict_set n s d)
              \<and> w' = emit (EvPrint (MsgLoaded (length s) shown)) (emit (EvLoad n (data_path a)) w)))"
proof (cases "loader_of env n")
  case None
  with assms show ?thesis
    by (simp add: load_one_loader_of loader_of_None_iff)
next
  case (Some fs)
  obtain f shown where fs: "fs = (f, shown)" by (cases fs)
  from Some have known: "n \<in> set all_datasets"
    using loader_of_None_iff [of env n] by auto
  from assms Some fs have "load_with f n shown a (d, w) = (r, w')"
    by (simp add: load_one_loader_of)
  from load_with_cases [OF this] known show ?thesis by blast
qed

lemma load_loop_append:
  "load_loop env a (xs @ ys) st =
     (case load_loop env a xs st of
        (Inl e, w) \<Rightarrow> (Inl e, w)
      | (Inr d, w) \<Rightarrow> load_loop env a ys (d, w))"
  by (induction xs arbitrary: st) (auto split: prod.splits sum.splits)

subsection \<open>Traces and worlds\<close>

lemma emit_simps [simp]:
  "trace (emit e w) = trace w @ [e]"
  "dirs (emit e w) = dirs w"
  "files (emit e w) = files w"
  by (simp_all add: emit_def)

lemma projections_Nil [simp]:
  "loaded_names [] = []" "prepared_names [] = []" "written_paths [] = []"
  "generate_calls [] = []" "llm_inits [] = []"
  by (simp_all add: loaded_names_def prepared_names_def written_paths_def
      generate_calls_def llm_inits_def)

lemma projections_Cons [simp]:
  "loaded_names (e # es) = load_of e @ loaded_names es"
  "prepared_names (e # es) = prepare_of e @ prepared_names es"
  "written_paths (e # es) = write_of e @ written_paths es"
  "generate_calls (e # es) = generate_of e @ generate_calls es"
  "llm_inits (e # es) = llm_of e @ llm_inits es"
  by (simp_all add: loaded_names_def prepared_names_def written_paths_def
      generate_calls_def llm_inits_def)

lemma projections_append [simp]:
  "loaded_names (xs @ ys) = loaded_names xs @ loaded_names ys"
  "prepared_names (xs @ ys) = prepared_names xs @ prepared_names ys"
  "written_paths (xs @ ys) = written_paths xs @ written_paths ys"
  "generate_calls (xs @ ys) = generate_calls xs @ generate_calls ys"
  "llm_inits (xs @ ys) = llm_inits xs @ llm_inits ys"
  by (simp_all add: loaded_names_def prepared_names_def written_paths_def
      generate_calls_def llm_inits_def)

lemma projections_prints [simp]:
  "loaded_names (map EvPrint msgs) = []"
  "prepared_names (map EvPrint msgs) = []"
  "written_paths (map EvPrint msgs) = []"
  "generate_calls (map EvPrint msgs) = []"
  "llm_inits (map EvPrint msgs) = []"
  by (induction msgs) simp_all

lemma load_event_projections:
  "is_load_event e \<Longrightarrow> prepare_of e = [] \<and> write_of e = [] \<and> generate_of e = [] \<and> llm_of e = []"
  by (cases e) simp_all

lemma load_events_projections:
  assumes "list_all is_load_event es"
  shows "prepared_names es = []" "written_paths es = []" "generate_calls es = []"
    "llm_inits es = []"
  using assms by (induction es) (simp_all add: load_event_projections)

subsection \<open>The printing\<close>

lemma print_tasks_world:
  assumes "print_tasks items w = (r, w')"
  shows "dirs w' = dirs w \<and> files w' = files w \<and> (\<exists>msgs. trace w' = trace w @ map EvPrint msgs)"
  using assms
proof (induction items arbitrary: w)
  case Nil
  then show ?case by simp
next
  case (Cons item items)
  obtain task acc where item: "item = (task, acc)" by (cases item)
  show ?case
  proof (cases "format_4f acc")
    case None
    with Cons.prems item
    have "print_tasks items (emit (EvPrint (MsgTaskAccuracy task acc)) w) = (r, w')"
      by simp
    from Cons.IH [OF this] obtain msgs where
      "dirs w' = dirs w" "files w' = files w"
      "trace w' = trace w @ map EvPrint (MsgTaskAccuracy task acc # msgs)"
      by auto
    then show ?thesis by blast
  next
    case (Some e)
    with Cons.prems item have "w' = w" by simp
    then show ?thesis by simp
  qed
qed

lemma print_summary_world:
  assumes "print_summary n results metrics w = (r, w')"
  shows "dirs w' = dirs w \<and> files w' = files w \<and> (\<exists>msgs. trace w' = trace w @ map EvPrint msgs)"
proof -
  let ?w2 = "emit (EvPrint (MsgTotalSamples (length results))) (emit (EvPrint (MsgResults n)) w)"
  have two: "trace ?w2 = trace w @ map EvPrint [MsgResults n, MsgTotalSamples (length results)]"
    by simp
  show ?thesis
  proof (cases "map_of metrics ''accuracy''")
    case None
    with assms have "w' = ?w2" by (simp add: print_summary_def)
    with two show ?thesis by (metis emit_simps(2,3))
  next
    case (Some acc)
    note acc = this
    show ?thesis
    proof (cases "format_4f acc")
      case (Some e)
      with assms acc have "w' = ?w2" by (simp add: print_summary_def)
      with two show ?thesis by (metis emit_simps(2,3))
    next
      case None
      note fmt = this
      let ?w3 = "emit (EvPrint (MsgAccuracy acc)) ?w2"
      have three: "trace ?w3 = trace w @ map EvPrint [MsgResults n, MsgTotalSamples (length results), MsgAccuracy acc]"
        by simp
      show ?thesis
      proof (cases "map_of metrics ''sub_accuracies''")
        case None
        with assms acc fmt have "w' = emit (EvPrint MsgBlank) ?w3"
          by (simp add: print_summary_def)
        then have "trace w' = trace w @ map EvPrint [MsgResults n, MsgTotalSamples (length results), MsgAccuracy acc, MsgBlank]"
          "dirs w' = dirs w" "files w' = files w"
          by simp_all
        then show ?thesis by blast
      next
        case (Some sub)
        note sub = this
        let ?w4 = "emit (EvPrint MsgTaskHeader) ?w3"
        have four: "trace ?w4 = trace w @ map EvPrint [MsgResults n, MsgTotalSamples (length results), MsgAccuracy acc, MsgTaskHeader]"
          by simp
        show ?thesis
        proof (cases "\<exists>items. sub = PDict items")
          case False
          with assms acc fmt sub have "w' = ?w4"
            by (cases sub) (simp_all add: print_summary_def)
          with four show ?thesis by (metis emit_simps(2,3))
        next
          case True
          then obtain items where items: "sub = PDict items" by blast
          obtain r5 w5 where pt: "print_tasks items ?w4 = (r5, w5)"
            by (cases "print_tasks items ?w4")
          from print_tasks_world [OF pt] obtain msgs where
            w5: "dirs w5 = dirs w" "files w5 = files w"
            "trace w5 = trace w @ map EvPrint ([MsgResults n, MsgTotalSamples (length results), MsgAccuracy acc, MsgTaskHeader] @ msgs)"
            by auto
          show ?thesis
          proof (cases r5)
            case (Inl e)
            with assms acc fmt sub items pt have "w' = w5"
              by (simp add: print_summary_def)
            with w5 show ?thesis by blast
          next
            case (Inr u)
            with assms acc fmt sub items pt have "w' = emit (EvPrint MsgBlank) w5"
              by (simp add: print_summary_def)
            with w5 have "dirs w' = dirs w" "files w' = files w"
              "trace w' = trace w @ map EvPrint ([MsgResults n, MsgTotalSamples (length results), MsgAccuracy acc, MsgTaskHeader] @ msgs @ [MsgBlank])"
              by simp_all
            then show ?thesis by blast
          qed
        qed
      qed
    qed
  qed
qed

lemma print_summary_accuracy:
  assumes "print_summary n results metrics w = (Inr u, w')"
  shows "''accuracy'' \<in> fst ` set metrics"
proof (cases "map_of metrics ''accuracy''")
  case None
  with assms show ?thesis by (simp add: print_summary_def)
next
  case (Some acc)
  then have "(''accuracy'', acc) \<in> set metrics" by (rule map_of_SomeD)
  then show ?thesis by force
qed

subsection \<open>The loading loop\<close>

lemma keys_after_requests:
  "foldl insert_key ks ns = ks @ filter (\<lambda>n. n \<notin> set ks) (first_requests ns)"
proof (induction ns arbitrary: ks)
  case Nil
  show ?case by simp
next
  case (Cons n ns)
  show ?case
  proof (cases "n \<in> set ks")
    case True
    then have "filter (\<lambda>m. m \<notin> set ks) (filter (\<lambda>m. m \<noteq> n) (first_requests ns))
               = filter (\<lambda>m. m \<notin> set ks) (first_requests ns)"
      by (auto intro: filter_cong)
    with True Cons.IH [of ks] show ?thesis
      by (simp add: insert_key_def)
  next
    case False
    have "filter (\<lambda>m. m \<notin> set (ks @ [n])) (first_requests ns)
          = filter (\<lambda>m. m \<notin> set ks) (filter (\<lambda>m. m \<noteq> n) (first_requests ns))"
      by (auto intro: filter_cong)
    with False Cons.IH [of "ks @ [n]"] show ?thesis
      by (simp add: insert_key_def)
  qed
qed

lemma load_loop_world:
  assumes "load_loop env a ns (d, w) = (r, w')"
  shows "dirs w' = dirs w \<and> files w' = files w \<and>
         (\<exists>new. trace w' = trace w @ new \<and> list_all is_load_event new \<and>
                 prefix (loaded_names new) (filter (\<lambda>n. n \<in> set all_datasets) ns) \<and>
                 (\<forall>d'. r = Inr d' \<longrightarrow>
                    loaded_names new = filter (\<lambda>n. n \<in> set all_datasets) ns \<and>
                    map fst d' = foldl insert_key (map fst d) (filter (\<lambda>n. n \<in> set all_datasets) ns)))"
  using assms
proof (induction ns arbitrary: d w)
  case Nil
  then show ?case by auto
next
  case (Cons n ns)
  obtain r1 w1 where one: "load_one env a n (d, w) = (r1, w1)"
    by (cases "load_one env a n (d, w)")
  from load_one_cases [OF one] consider
    (skip) "n \<notin> set all_datasets" "r1 = Inr d" "w1 = w"
    | (raised) e where "n \<in> set all_datasets" "r1 = Inl e" "w1 = emit (EvLoad n (data_path a)) w"
    | (stored) s shown where "n \<in> set all_datasets" "r1 = Inr (dict_set n s d)"
        "w1 = emit (EvPrint (MsgLoaded (length s) shown)) (emit (EvLoad n (data_path a)) w)"
    by blast
  then show ?case
  proof cases
    case skip
    with Cons.prems one have "load_loop env a ns (d, w) = (r, w')" by simp
    from Cons.IH [OF this] skip(1) show ?thesis by simp
  next
    case raised
    with Cons.prems one have "r = Inl e" "w' = emit (EvLoad n (data_path a)) w" by simp_all
    then have "dirs w' = dirs w" "files w' = files w"
      "trace w' = trace w @ [EvLoad n (data_path a)]" by simp_all
    moreover have "list_all is_load_event [EvLoad n (data_path a)]" by simp
    moreover have "prefix (loaded_names [EvLoad n (data_path a)])
                     (filter (\<lambda>n. n \<in> set all_datasets) (n # ns))"
      using raised(1) by simp
    ultimately show ?thesis using \<open>r = Inl e\<close> by blast
  next
    case stored
    let ?two = "[EvLoad n (data_path a), EvPrint (MsgLoaded (length s) shown)]"
    from stored Cons.prems one
    have rest: "load_loop env a ns (dict_set n s d, w1) = (r, w')" by simp
    have w1: "dirs w1 = dirs w" "files w1 = files w" "trace w1 = trace w @ ?two"
      using stored(3) by simp_all
    from Cons.IH [OF rest] obtain new where new:
      "dirs w' = dirs w1" "files w' = files w1" "trace w' = trace w1 @ new"
      "list_all is_load_event new"
      "prefix (loaded_names new) (filter (\<lambda>n. n \<in> set all_datasets) ns)"
      "\<forall>d'. r = Inr d' \<longrightarrow>
          loaded_names new = filter (\<lambda>n. n \<in> set all_datasets) ns \<and>
          map fst d' = foldl insert_key (map fst (dict_set n s d)) (filter (\<lambda>n. n \<in> set all_datasets) ns)"
      by blast
    have "trace w' = trace w @ (?two @ new)" using new(3) w1(3) by simp
    moreover have "list_all is_load_event (?two @ new)" using new(4) by simp
    moreover have "prefix (loaded_names (?two @ new)) (filter (\<lambda>n. n \<in> set all_datasets) (n # ns))"
      using new(5) stored(1) by simp
    moreover have "\<forall>d'. r = Inr d' \<longrightarrow>
          loaded_names (?two @ new) = filter (\<lambda>n. n \<in> set all_datasets) (n # ns) \<and>
          map fst d' = foldl insert_key (map fst d) (filter (\<lambda>n. n \<in> set all_datasets) (n # ns))"
      using new(6) stored(1) by (simp add: keys_dict_set)
    ultimately show ?thesis using new(1,2) w1(1,2) by metis
  qed
qed


lemma load_loop_succeeds_iff:
  "\<not> isl (fst (load_loop env a ns (d, w))) \<longleftrightarrow>
     list_all (\<lambda>n. case loader_of env n of
                      None \<Rightarrow> True
                    | Some (f, shown) \<Rightarrow> \<not> isl (f (data_path a))) ns"
proof (induction ns arbitrary: d w)
  case Nil
  show ?case by simp
next
  case (Cons n ns)
  show ?case
  proof (cases "loader_of env n")
    case None
    then show ?thesis using Cons.IH [of d w]
      by (simp add: load_one_loader_of)
  next
    case (Some fs)
    obtain f shown where fs: "fs = (f, shown)" by (cases fs)
    show ?thesis
    proof (cases "f (data_path a)")
      case (Inl e)
      with Some fs show ?thesis
        by (simp add: load_one_loader_of load_with_def)
    next
      case (Inr s)
      with Some fs show ?thesis
        using Cons.IH [of "dict_set n s d" "emit (EvPrint (MsgLoaded (length s) shown)) (emit (EvLoad n (data_path a)) w)"]
        by (simp add: load_one_loader_of load_with_def)
    qed
  qed
qed

subsection \<open>One iteration of the evaluation loop\<close>

lemma open_write_Inr:
  assumes "open_write p doc w = Inr w'"
  shows "dirs w' = dirs w" "files w' = (files w)(p \<mapsto> doc)"
    "trace w' = trace w @ [EvWrite p doc]"
  using assms by (auto simp: open_write_def split: if_splits)

lemma eval_one_cases:
  assumes "eval_one env a sp (n, s) (llm, w) = (r, w')"
  obtains
    (before_generate) e where "r = Inl e" "w' = emit (EvPrepare n) w"
  | (before_write) ps e where "r = Inl e"
      "w' = emit (EvGenerate llm ps sp) (emit (EvPrepare n) w)"
  | (written) ps md outs llm' results metrics msgs where
      "prepare_prompts env n s a = Inr (ps, md)"
      "generate env llm ps sp = Inr (outs, llm')"
      "process_outputs env outs md (eval_threads a) = Inr results"
      "calculate_metrics env results = Inr metrics"
      "dirs w' = dirs w"
      "files w' = (files w)(report_path a n \<mapsto> report_doc results metrics a)"
      "trace w' = trace w @ [EvPrepare n, EvGenerate llm ps sp,
                             EvWrite (report_path a n) (report_doc results metrics a)]
                          @ map EvPrint msgs"
      "\<And>l. r = Inr l \<Longrightarrow> l = llm' \<and> ''accuracy'' \<in> fst ` set metrics"
proof (cases "prepare_prompts env n s a")
  case (Inl e)
  with assms have "r = Inl e" "w' = emit (EvPrepare n) w"
    by (simp_all add: eval_one_def)
  then show ?thesis by (rule before_generate)
next
  case (Inr pm)
  obtain ps md where pm: "pm = (ps, md)" by (cases pm)
  let ?w2 = "emit (EvGenerate llm ps sp) (emit (EvPrepare n) w)"
  show ?thesis
  proof (cases "generate env llm ps sp")
    case (Inl e)
    with assms Inr pm have "r = Inl e" "w' = ?w2"
      by (simp_all add: eval_one_def)
    then show ?thesis by (rule before_write)
  next
    case gen: (Inr ol)
    obtain outs llm' where ol: "ol = (outs, llm')" by (cases ol)
    show ?thesis
    proof (cases "process_outputs env outs md (eval_threads a)")
      case (Inl e)
      with assms Inr pm gen ol have "r = Inl e" "w' = ?w2"
        by (simp_all add: eval_one_def)
      then show ?thesis by (rule before_write)
    next
      case po: (Inr results)
      show ?thesis
      proof (cases "calculate_metrics env results")
        case (Inl e)
        with assms Inr pm gen ol po have "r = Inl e" "w' = ?w2"
          by (simp_all add: eval_one_def)
        then show ?thesis by (rule before_write)
      next
        case cm: (Inr metrics)
        let ?doc = "report_doc results metrics a"
        show ?thesis
        proof (cases "open_write (report_path a n) ?doc ?w2")
          case (Inl e)
          with assms Inr pm gen ol po cm have "r = Inl e" "w' = ?w2"
            by (simp_all add: eval_one_def report_doc_def)
          then show ?thesis by (rule before_write)
        next
          case ow: (Inr w3)
          from open_write_Inr [OF ow] have w3: "dirs w3 = dirs w"
            "files w3 = (files w)(report_path a n \<mapsto> ?doc)"
            "trace w3 = trace w @ [EvPrepare n, EvGenerate llm ps sp, EvWrite (report_path a n) ?doc]"
            by simp_all
          obtain r4 w4 where ps4: "print_summary n results metrics w3 = (r4, w4)"
            by (cases "print_summary n results metrics w3")
          from assms Inr pm gen ol po cm ow ps4
          have res: "w' = w4" "r = (case r4 of Inl e \<Rightarrow> Inl e | Inr u \<Rightarrow> Inr llm')"
            by (simp_all add: eval_one_def report_doc_def split: sum.splits)
          from print_summary_world [OF ps4] obtain msgs where
            w4: "dirs w4 = dirs w3" "files w4 = files w3" "trace w4 = trace w3 @ map EvPrint msgs"
            by blast
          have last: "\<And>l. r = Inr l \<Longrightarrow> l = llm' \<and> ''accuracy'' \<in> fst ` set metrics"
          proof -
            fix l
            assume "r = Inr l"
            with res(2) obtain u where "r4 = Inr u" "l = llm'"
              by (cases r4) simp_all
            with ps4 print_summary_accuracy show "l = llm' \<and> ''accuracy'' \<in> fst ` set metrics"
              by blast
          qed
          show ?thesis
          proof (rule written [of ps md outs llm' results metrics msgs])
            show "prepare_prompts env n s a = Inr (ps, md)" using Inr pm by simp
            show "generate env llm ps sp = Inr (outs, llm')" using gen ol by simp
            show "process_outputs env outs md (eval_threads a) = Inr results" by (rule po)
            show "calculate_metrics env results = Inr metrics" by (rule cm)
            show "dirs w' = dirs w" using res(1) w4(1) w3(1) by simp
            show "files w' = (files w)(report_path a n \<mapsto> ?doc)"
              using res(1) w4(2) w3(2) by simp
            show "trace w' = trace w @ [EvPrepare n, EvGenerate llm ps sp, EvWrite (report_path a n) ?doc] @ map EvPrint msgs"
              using res(1) w4(3) w3(3) by simp
            show "\<And>l. r = Inr l \<Longrightarrow> l = llm' \<and> ''accuracy'' \<in> fst ` set metrics"
              by (rule last)
          qed
        qed
      qed
    qed
  qed
qed

lemma eval_loop_append:
  "eval_loop env a sp (xs @ ys) st =
     (case eval_loop env a sp xs st of
        (Inl e, w) \<Rightarrow> (Inl e, w)
      | (Inr llm, w) \<Rightarrow> eval_loop env a sp ys (llm, w))"
  by (induction xs arbitrary: st) (auto split: prod.splits sum.splits)

lemma eval_loop_induct [consumes 1, case_names finished failed step]:
  assumes "eval_loop env a sp items (llm, w) = (r, w')"
    and "\<And>llm w. P [] llm w (Inr llm) w"
    and "\<And>n s items llm w e w1.
           eval_one env a sp (n, s) (llm, w) = (Inl e, w1) \<Longrightarrow> P ((n, s) # items) llm w (Inl e) w1"
    and "\<And>n s items llm w llm1 w1 r w'.
           eval_one env a sp (n, s) (llm, w) = (Inr llm1, w1) \<Longrightarrow>
           eval_loop env a sp items (llm1, w1) = (r, w') \<Longrightarrow>
           P items llm1 w1 r w' \<Longrightarrow> P ((n, s) # items) llm w r w'"
  shows "P items llm w r w'"
  using assms(1)
proof (induction items arbitrary: llm w)
  case Nil
  then show ?case using assms(2) by auto
next
  case (Cons item items)
  obtain n s where item: "item = (n, s)" by (cases item)
  obtain r1 w1 where one: "eval_one env a sp (n, s) (llm, w) = (r1, w1)"
    by (cases "eval_one env a sp (n, s) (llm, w)")
  show ?case
  proof (cases r1)
    case (Inl e)
    with Cons.prems item one have "r = Inl e" "w' = w1" by simp_all
    with assms(3) one Inl item show ?thesis by simp
  next
    case (Inr llm1)
    with Cons.prems item one have rest: "eval_loop env a sp items (llm1, w1) = (r, w')"
      by simp
    from assms(4) [OF _ rest Cons.IH [OF rest]] one Inr item show ?thesis by simp
  qed
qed

subsection \<open>Report paths\<close>

lemma known_name_shape: "n \<in> set all_datasets \<Longrightarrow> n \<noteq> [] \<and> hd n \<noteq> CHR ''/''"
  by (auto simp: all_datasets_def)

lemma report_path_known:
  assumes "n \<in> set all_datasets"
  shows "report_path a n =
           (if output_dir a = [] \<or> last (output_dir a) = CHR ''/'' then output_dir a
            else output_dir a @ ''/'') @ n @ ''.json''"
  using known_name_shape [OF assms] by (cases n) (simp_all add: report_path_def os_path_join_def)

lemma report_path_inj:
  assumes "n \<in> set all_datasets" "m \<in> set all_datasets" "report_path a n = report_path a m"
  shows "n = m"
  using assms(3) by (simp add: report_path_known [OF assms(1)] report_path_known [OF assms(2)])

subsection \<open>Handing the engine on\<close>

lemma chained_no_calls: "generate_calls es = [] \<Longrightarrow> chained env cur es"
proof (induction es)
  case Nil
  show ?case by simp
next
  case (Cons e es)
  then show ?case by (cases e) simp_all
qed

lemma chained_prints [simp]: "chained env cur (map EvPrint msgs @ es) = chained env cur es"
  by (induction msgs) simp_all

lemma write_event_iff: "p \<in> set (written_paths tr) \<longleftrightarrow> (\<exists>doc. EvWrite p doc \<in> set tr)"
proof (induction tr)
  case Nil
  show ?case by simp
next
  case (Cons e tr)
  then show ?case by (cases e) auto
qed

lemma generate_event_iff:
  "(l, ps, s) \<in> set (generate_calls tr) \<longleftrightarrow> EvGenerate l ps s \<in> set tr"
proof (induction tr)
  case Nil
  show ?case by simp
next
  case (Cons e tr)
  then show ?case by (cases e) auto
qed

lemma prepare_event_iff: "n \<in> set (prepared_names tr) \<longleftrightarrow> EvPrepare n \<in> set tr"
proof (induction tr)
  case Nil
  show ?case by simp
next
  case (Cons e tr)
  then show ?case by (cases e) auto
qed

lemma load_event_iff: "n \<in> set (loaded_names tr) \<longleftrightarrow> (\<exists>p. EvLoad n p \<in> set tr)"
proof (induction tr)
  case Nil
  show ?case by simp
next
  case (Cons e tr)
  then show ?case by (cases e) auto
qed

subsection \<open>The evaluation loop\<close>

lemma eval_one_extends:
  assumes "eval_one env a sp (n, s) (llm, w) = (r, w')"
  shows "\<exists>blk. trace w' = trace w @ blk"
  using assms by (cases rule: eval_one_cases) auto

lemma eval_loop_extends:
  assumes "eval_loop env a sp items (llm, w) = (r, w')"
  shows "\<exists>new. trace w' = trace w @ new"
  using assms
proof (induction rule: eval_loop_induct)
  case (finished llm w)
  show ?case by simp
next
  case (failed n s items llm w e w1)
  then show ?case by (rule eval_one_extends)
next
  case (step n s items llm w llm1 w1 r w')
  from eval_one_extends [OF step(1)] step(3) show ?case by auto
qed

lemma eval_loop_dirs:
  assumes "eval_loop env a sp items (llm, w) = (r, w')"
  shows "dirs w' = dirs w"
  using assms
proof (induction rule: eval_loop_induct)
  case (finished llm w)
  show ?case by simp
next
  case (failed n s items llm w e w1)
  then show ?case by (cases rule: eval_one_cases) simp_all
next
  case (step n s items llm w llm1 w1 r w')
  from step(1) have "dirs w1 = dirs w" by (cases rule: eval_one_cases) simp_all
  with step(3) show ?case by simp
qed

text \<open>What the loop calls: no loader, no constructor, and the engine handed on.\<close>

lemma eval_loop_calls:
  assumes "eval_loop env a sp items (llm, w) = (r, w')"
    and "trace w' = trace w @ new"
  shows "loaded_names new = [] \<and> llm_inits new = [] \<and>
         (\<forall>c \<in> set (generate_calls new). snd (snd c) = sp) \<and> chained env llm new"
  using assms
proof (induction arbitrary: new rule: eval_loop_induct)
  case (finished llm w)
  then show ?case by simp
next
  case (failed n s items llm w e w1)
  from failed(1) show ?case
  proof (cases rule: eval_one_cases)
    case (before_generate e')
    with failed(2) have "new = [EvPrepare n]" by simp
    then show ?thesis by simp
  next
    case (before_write ps e')
    with failed(2) have "new = [EvPrepare n, EvGenerate llm ps sp]" by simp
    then show ?thesis by (simp split: sum.splits)
  next
    case (written ps md outs llm' results metrics msgs)
    with failed(2) have "new = [EvPrepare n, EvGenerate llm ps sp,
        EvWrite (report_path a n) (report_doc results metrics a)] @ map EvPrint msgs" by simp
    with written(2) show ?thesis by (simp add: chained_no_calls)
  qed
next
  case (step n s items llm w llm1 w1 r w')
  from eval_loop_extends [OF step(2)] obtain new2 where new2: "trace w' = trace w1 @ new2"
    by blast
  from step(3) [OF new2] have ih: "loaded_names new2 = []" "llm_inits new2 = []"
    "\<forall>c \<in> set (generate_calls new2). snd (snd c) = sp" "chained env llm1 new2"
    by simp_all
  from step(1) show ?case
  proof (cases rule: eval_one_cases)
    case (written ps md outs llm' results metrics msgs)
    from written(8) [of llm1] have llm1: "llm1 = llm'" by simp
    from written(7) new2 step(4) have "new = [EvPrepare n, EvGenerate llm ps sp,
        EvWrite (report_path a n) (report_doc results metrics a)] @ map EvPrint msgs @ new2"
      by simp
    with ih written(2) llm1 show ?thesis by simp
  qed simp_all
qed

lemma split_after_prefix:
  assumes "xs @ ys = bs @ e # as" and "e \<notin> set xs"
  shows "\<exists>cs. bs = xs @ cs \<and> ys = cs @ e # as"
proof -
  from assms(1) obtain us where
    "(xs = bs @ us \<and> us @ ys = e # as) \<or> (xs @ us = bs \<and> ys = us @ e # as)"
    by (auto simp: append_eq_append_conv2)
  then show ?thesis
  proof
    assume h: "xs = bs @ us \<and> us @ ys = e # as"
    show ?thesis
    proof (cases us)
      case Nil
      with h show ?thesis by simp
    next
      case (Cons u us')
      with h have "e \<in> set xs" by simp
      with assms(2) show ?thesis by simp
    qed
  next
    assume "xs @ us = bs \<and> ys = us @ e # as"
    then show ?thesis by blast
  qed
qed

text \<open>Which datasets the loop reaches and which reports it writes.\<close>

lemma eval_loop_names:
  assumes "eval_loop env a sp items (llm, w) = (r, w')"
    and "trace w' = trace w @ new"
  shows "prefix (prepared_names new) (map fst items) \<and>
         prefix (written_paths new) (map (report_path a) (prepared_names new)) \<and>
         (\<forall>l. r = Inr l \<longrightarrow> prepared_names new = map fst items \<and>
                written_paths new = map (report_path a) (map fst items))"
  using assms
proof (induction arbitrary: new rule: eval_loop_induct)
  case (finished llm w)
  then show ?case by simp
next
  case (failed n s items llm w e w1)
  from failed(1) show ?case
  proof (cases rule: eval_one_cases)
    case (before_generate e')
    with failed(2) have "new = [EvPrepare n]" by simp
    then show ?thesis by simp
  next
    case (before_write ps e')
    with failed(2) have "new = [EvPrepare n, EvGenerate llm ps sp]" by simp
    then show ?thesis by simp
  next
    case (written ps md outs llm' results metrics msgs)
    with failed(2) have "new = [EvPrepare n, EvGenerate llm ps sp,
        EvWrite (report_path a n) (report_doc results metrics a)] @ map EvPrint msgs" by simp
    then show ?thesis by simp
  qed
next
  case (step n s items llm w llm1 w1 r w')
  from eval_loop_extends [OF step(2)] obtain new2 where new2: "trace w' = trace w1 @ new2"
    by blast
  note ih = step(3) [OF new2]
  from step(1) show ?case
  proof (cases rule: eval_one_cases)
    case (written ps md outs llm' results metrics msgs)
    from written(7) new2 step(4) have "new = [EvPrepare n, EvGenerate llm ps sp,
        EvWrite (report_path a n) (report_doc results metrics a)] @ map EvPrint msgs @ new2"
      by simp
    with ih show ?thesis by simp
  qed simp_all
qed

text \<open>A report is in the trace before the next dataset is begun.\<close>

lemma eval_loop_order:
  assumes "eval_loop env a sp items (llm, w) = (r, w')"
    and "trace w' = trace w @ new"
    and "new = before @ EvPrepare m # after"
    and "n \<in> set (prepared_names before)"
  shows "\<exists>doc. EvWrite (report_path a n) doc \<in> set before"
  using assms
proof (induction arbitrary: new before rule: eval_loop_induct)
  case (finished llm w)
  then show ?case by simp
next
  case (failed n0 s items llm w e w1)
  from failed(1) obtain tl where tl: "trace w1 = trace w @ EvPrepare n0 # tl"
    "prepared_names tl = []"
    by (cases rule: eval_one_cases) auto
  with failed(2,3) have eq: "EvPrepare n0 # tl = before @ EvPrepare m # after" by simp
  show ?case
  proof (cases before)
    case Nil
    with failed(4) show ?thesis by simp
  next
    case (Cons b bs)
    with eq have "tl = bs @ EvPrepare m # after" by simp
    with tl(2) show ?thesis by simp
  qed
next
  case (step n0 s items llm w llm1 w1 r w')
  from eval_loop_extends [OF step(2)] obtain new2 where new2: "trace w' = trace w1 @ new2"
    by blast
  from step(1) obtain ps doc msgs where blk:
    "trace w1 = trace w @ [EvPrepare n0, EvGenerate llm ps sp, EvWrite (report_path a n0) doc] @ map EvPrint msgs"
    by (cases rule: eval_one_cases) auto
  let ?tl = "[EvGenerate llm ps sp, EvWrite (report_path a n0) doc] @ map EvPrint msgs"
  from blk new2 step(4,5)
  have eq: "EvPrepare n0 # ?tl @ new2 = before @ EvPrepare m # after" by simp
  show ?case
  proof (cases before)
    case Nil
    with step(6) show ?thesis by simp
  next
    case (Cons b bs)
    with eq have b: "b = EvPrepare n0" and rest: "?tl @ new2 = bs @ EvPrepare m # after"
      by simp_all
    have "EvPrepare m \<notin> set ?tl" by auto
    from split_after_prefix [OF rest this] obtain cs where
      cs: "bs = ?tl @ cs" "new2 = cs @ EvPrepare m # after" by blast
    from step(6) Cons b cs(1) have "n = n0 \<or> n \<in> set (prepared_names cs)" by auto
    then show ?thesis
    proof
      assume "n = n0"
      with Cons cs(1) show ?thesis by auto
    next
      assume "n \<in> set (prepared_names cs)"
      from step(3) [OF new2 cs(2) this] obtain doc' where
        "EvWrite (report_path a n) doc' \<in> set cs" by blast
      with Cons cs(1) show ?thesis by auto
    qed
  qed
qed

text \<open>What is on disk afterwards.\<close>

lemma eval_loop_other_files:
  assumes "eval_loop env a sp items (llm, w) = (r, w')"
    and "q \<notin> report_path a ` fst ` set items"
  shows "files w' q = files w q"
  using assms
proof (induction rule: eval_loop_induct)
  case (finished llm w)
  show ?case by simp
next
  case (failed n s items llm w e w1)
  from failed(1) failed(2) show ?case
    by (cases rule: eval_one_cases) auto
next
  case (step n s items llm w llm1 w1 r w')
  from step(1) step(4) have "files w1 q = files w q"
    by (cases rule: eval_one_cases) auto
  with step(3) step(4) show ?case by simp
qed

lemma eval_loop_written_names:
  assumes "eval_loop env a sp items (llm, w) = (r, w')"
    and "trace w' = trace w @ new"
  shows "set (written_paths new) \<subseteq> report_path a ` fst ` set items"
proof -
  from eval_loop_names [OF assms]
  have one: "prefix (written_paths new) (map (report_path a) (prepared_names new))"
    and two: "prefix (prepared_names new) (map fst items)" by simp_all
  from one have "set (written_paths new) \<subseteq> set (map (report_path a) (prepared_names new))"
    by (rule set_mono_prefix)
  moreover from two have "set (prepared_names new) \<subseteq> set (map fst items)"
    by (rule set_mono_prefix)
  ultimately show ?thesis by (simp only: set_map) blast
qed

lemma eval_loop_files:
  assumes "eval_loop env a sp items (llm, w) = (r, w')"
    and "trace w' = trace w @ new"
    and "distinct (map fst items)"
    and "set (map fst items) \<subseteq> set all_datasets"
    and "EvWrite p doc \<in> set new"
  shows "files w' p = Some doc"
  using assms
proof (induction arbitrary: new rule: eval_loop_induct)
  case (finished llm w)
  then show ?case by simp
next
  case (failed n s items llm w e w1)
  from failed(1) failed(2) failed(5) show ?case
    by (cases rule: eval_one_cases) auto
next
  case (step n s items llm w llm1 w1 r w')
  from eval_loop_extends [OF step(2)] obtain new2 where new2: "trace w' = trace w1 @ new2"
    by blast
  from step(5,6) have rest: "distinct (map fst items)" "set (map fst items) \<subseteq> set all_datasets"
    and n: "n \<in> set all_datasets" "n \<notin> fst ` set items"
    by auto
  have other: "report_path a n \<notin> report_path a ` fst ` set items"
  proof
    assume "report_path a n \<in> report_path a ` fst ` set items"
    then obtain m where m: "m \<in> fst ` set items" "report_path a n = report_path a m" by blast
    with rest(2) have "m \<in> set all_datasets" by auto
    from report_path_inj [OF n(1) this m(2)] m(1) n(2) show False by simp
  qed
  from step(1) obtain ps d msgs where blk:
    "trace w1 = trace w @ [EvPrepare n, EvGenerate llm ps sp, EvWrite (report_path a n) d] @ map EvPrint msgs"
    "files w1 = (files w)(report_path a n \<mapsto> d)"
    by (cases rule: eval_one_cases) auto
  from blk(1) new2 step(4) have "new = [EvPrepare n, EvGenerate llm ps sp, EvWrite (report_path a n) d] @ map EvPrint msgs @ new2"
    by simp
  with step(7) have "(p = report_path a n \<and> doc = d) \<or> EvWrite p doc \<in> set new2" by auto
  then show ?case
  proof
    assume here: "p = report_path a n \<and> doc = d"
    from eval_loop_other_files [OF step(2) other] blk(2) here show ?thesis by simp
  next
    assume "EvWrite p doc \<in> set new2"
    from step(3) [OF new2 rest this] show ?thesis .
  qed
qed

lemma eval_loop_docs:
  assumes "eval_loop env a sp items (llm, w) = (r, w')"
    and "trace w' = trace w @ new"
    and "EvWrite p doc \<in> set new"
  shows "\<exists>results metrics. doc = report_doc results metrics a \<and>
           calculate_metrics env results = Inr metrics \<and>
           (\<forall>l. r = Inr l \<longrightarrow> ''accuracy'' \<in> fst ` set metrics)"
  using assms
proof (induction arbitrary: new rule: eval_loop_induct)
  case (finished llm w)
  then show ?case by simp
next
  case (failed n s items llm w e w1)
  from failed(1) show ?case
  proof (cases rule: eval_one_cases)
    case (written ps md outs llm' results metrics msgs)
    with failed(2,3) have "doc = report_doc results metrics a" by auto
    with written(4) show ?thesis
      by (intro exI [of _ results] exI [of _ metrics]) simp
  qed (use failed(2,3) in auto)
next
  case (step n s items llm w llm1 w1 r w')
  from eval_loop_extends [OF step(2)] obtain new2 where new2: "trace w' = trace w1 @ new2"
    by blast
  from step(1) obtain ps results metrics msgs where blk:
    "trace w1 = trace w @ [EvPrepare n, EvGenerate llm ps sp,
        EvWrite (report_path a n) (report_doc results metrics a)] @ map EvPrint msgs"
    "calculate_metrics env results = Inr metrics" "''accuracy'' \<in> fst ` set metrics"
    by (cases rule: eval_one_cases) auto
  from blk(1) new2 step(4) have "new = [EvPrepare n, EvGenerate llm ps sp,
        EvWrite (report_path a n) (report_doc results metrics a)] @ map EvPrint msgs @ new2"
    by simp
  with step(5) have "doc = report_doc results metrics a \<or> EvWrite p doc \<in> set new2" by auto
  then show ?case
  proof
    assume "doc = report_doc results metrics a"
    with blk(2,3) show ?thesis
      by (intro exI [of _ results] exI [of _ metrics]) simp
  next
    assume "EvWrite p doc \<in> set new2"
    from step(3) [OF new2 this] show ?thesis .
  qed
qed

subsection \<open>The whole run\<close>

lemma os_makedirs_Inr:
  assumes "os_makedirs p w = Inr w'"
  shows "p \<noteq> []" "trace w' = trace w" "files w' = files w"
    "dirs w' = insert (dir_key p) (dirs w)"
  using assms by (auto simp: os_makedirs_def split: if_splits)

lemma os_makedirs_emit:
  "os_makedirs p (emit e w) = (case os_makedirs p w of Inl err \<Rightarrow> Inl err | Inr w' \<Rightarrow> Inr (emit e w'))"
  by (simp add: os_makedirs_def emit_def)

lemma all_loaded_iff:
  "all_loaded env a \<longleftrightarrow> \<not> isl (fst (load_loop env a (datasets_to_eval a) (d, w)))"
  by (simp add: all_loaded_def load_loop_succeeds_iff)

lemma main_run [consumes 2, case_names no_directory not_loaded no_op engine_failed evaluating]:
  assumes "main env a w0 = (r, w)" and "trace w0 = []"
  obtains
    (no_directory) e where
      "os_makedirs (output_dir a) w0 = Inl e" "r = Inl e"
      "trace w = [EvMakedirs (output_dir a)]" "files w = files w0" "dirs w = dirs w0"
  | (not_loaded) w2 e ld where
      "os_makedirs (output_dir a) w0 = Inr w2" "r = Inl e" "\<not> all_loaded env a"
      "trace w = EvMakedirs (output_dir a) # ld" "list_all is_load_event ld"
      "prefix (loaded_names ld) (requested_known a)"
      "files w = files w0" "dirs w = dirs w2"
  | (no_op) w2 ld where
      "os_makedirs (output_dir a) w0 = Inr w2" "r = Inr ()" "all_loaded env a"
      "requested_known a = []"
      "trace w = EvMakedirs (output_dir a) # ld @ [EvPrint MsgNoDatasets]"
      "list_all is_load_event ld" "loaded_names ld = []"
      "files w = files w0" "dirs w = dirs w2"
  | (engine_failed) w2 e ld where
      "os_makedirs (output_dir a) w0 = Inr w2" "r = Inl e" "all_loaded env a"
      "requested_known a \<noteq> []"
      "trace w = EvMakedirs (output_dir a) # ld @
                   [EvPrint (MsgInitializing (model a)), EvLLM (llm_config_of a)]"
      "list_all is_load_event ld" "loaded_names ld = requested_known a"
      "files w = files w0" "dirs w = dirs w2"
  | (evaluating) w2 ld d llm w5 rl w6 ev tl where
      "os_makedirs (output_dir a) w0 = Inr w2" "all_loaded env a"
      "requested_known a \<noteq> []"
      "list_all is_load_event ld" "loaded_names ld = requested_known a"
      "map fst d = evaluated a"
      "LLM env (llm_config_of a) = Inr llm"
      "trace w5 = EvMakedirs (output_dir a) # ld @
                    [EvPrint (MsgInitializing (model a)), EvLLM (llm_config_of a)]"
      "files w5 = files w0" "dirs w5 = dirs w2"
      "eval_loop env a (sampling_of a) d (llm, w5) = (rl, w6)"
      "trace w6 = trace w5 @ ev"
      "r = (case rl of Inl e \<Rightarrow> Inl e | Inr l \<Rightarrow> Inr ())"
      "tl = (case rl of Inl e \<Rightarrow> [] | Inr l \<Rightarrow> [EvPrint (MsgAllSaved (output_dir a))])"
      "trace w = trace w5 @ ev @ tl" "files w = files w6" "dirs w = dirs w2"
proof -
  let ?w1 = "emit (EvMakedirs (output_dir a)) w0"
  show ?thesis
  proof (cases "os_makedirs (output_dir a) w0")
    case (Inl e)
    with assms have "r = Inl e" "w = ?w1"
      by (simp_all add: main_def os_makedirs_emit)
    with Inl assms(2) show ?thesis by (intro no_directory [of e]) simp_all
  next
    case (Inr w2')
    let ?w2 = "emit (EvMakedirs (output_dir a)) w2'"
    have mk: "os_makedirs (output_dir a) ?w1 = Inr ?w2"
      using Inr by (simp add: os_makedirs_emit)
    from os_makedirs_Inr [OF Inr] assms(2)
    have w2: "trace ?w2 = [EvMakedirs (output_dir a)]" "files ?w2 = files w0"
      "dirs ?w2 = dirs w2'" by simp_all
    obtain r3 w3 where ll: "load_loop env a (datasets_to_eval a) ([], ?w2) = (r3, w3)"
      by (cases "load_loop env a (datasets_to_eval a) ([], ?w2)")
    from load_loop_world [OF ll] obtain ld where ld:
      "dirs w3 = dirs w2'" "files w3 = files w0" "trace w3 = EvMakedirs (output_dir a) # ld"
      "list_all is_load_event ld"
      "prefix (loaded_names ld) (requested_known a)"
      "\<forall>d'. r3 = Inr d' \<longrightarrow> loaded_names ld = requested_known a \<and>
             map fst d' = foldl insert_key [] (requested_known a)"
      using w2 by (auto simp: requested_known_def)
    show ?thesis
    proof (cases r3)
      case (Inl e)
      with assms(1) mk ll have "r = Inl e" "w = w3" by (simp_all add: main_def)
      moreover have "\<not> all_loaded env a"
        using all_loaded_iff [of env a "[]" ?w2] ll Inl by simp
      ultimately show ?thesis using Inr ld by (intro not_loaded [of w2' e ld]) simp_all
    next
      case (Inr d)
      have ok: "all_loaded env a"
        using all_loaded_iff [of env a "[]" ?w2] ll Inr by simp
      from ld(6) Inr have keys: "loaded_names ld = requested_known a"
        "map fst d = evaluated a"
        by (simp_all add: keys_after_requests evaluated_def)
      show ?thesis
      proof (cases "d = []")
        case True
        with assms(1) mk ll Inr have "r = Inr ()" "w = emit (EvPrint MsgNoDatasets) w3"
          by (simp_all add: main_def)
        moreover from True keys(2) have "requested_known a = []"
          by (cases "requested_known a") (simp_all add: evaluated_def)
        ultimately show ?thesis using \<open>os_makedirs (output_dir a) w0 = Inr w2'\<close> ok ld keys
          by (intro no_op [of w2' ld]) simp_all
      next
        case False
        with keys(2) have some: "requested_known a \<noteq> []"
          by (auto simp: evaluated_def)
        let ?w5 = "emit (EvLLM (llm_config_of a)) (emit (EvPrint (MsgInitializing (model a))) w3)"
        have w5: "trace ?w5 = EvMakedirs (output_dir a) # ld @
                    [EvPrint (MsgInitializing (model a)), EvLLM (llm_config_of a)]"
          "files ?w5 = files w0" "dirs ?w5 = dirs w2'"
          using ld by simp_all
        show ?thesis
        proof (cases "LLM env (llm_config_of a)")
          case (Inl e)
          with assms(1) mk ll \<open>r3 = Inr d\<close> False have "r = Inl e" "w = ?w5"
            by (simp_all add: main_def)
          then show ?thesis
            using \<open>os_makedirs (output_dir a) w0 = Inr w2'\<close> ok some ld keys w5
            by (intro engine_failed [of w2' e ld]) simp_all
        next
          case built: (Inr llm)
          show ?thesis
          proof (cases "SamplingParams_post_init env (sampling_of a)")
            case (Some e)
            with assms(1) mk ll \<open>r3 = Inr d\<close> False built have "r = Inl e" "w = ?w5"
              by (simp_all add: main_def)
            then show ?thesis
              using \<open>os_makedirs (output_dir a) w0 = Inr w2'\<close> ok some ld keys w5
              by (intro engine_failed [of w2' e ld]) simp_all
          next
            case None
            obtain rl w6 where el: "eval_loop env a (sampling_of a) d (llm, ?w5) = (rl, w6)"
              by (cases "eval_loop env a (sampling_of a) d (llm, ?w5)")
            from eval_loop_extends [OF el] obtain ev where ev: "trace w6 = trace ?w5 @ ev"
              by blast
            let ?tl = "case rl of Inl e \<Rightarrow> [] | Inr l \<Rightarrow> [EvPrint (MsgAllSaved (output_dir a))]"
            from assms(1) mk ll \<open>r3 = Inr d\<close> False built None el
            have res: "r = (case rl of Inl e \<Rightarrow> Inl e | Inr l \<Rightarrow> Inr ())"
              "w = (case rl of Inl e \<Rightarrow> w6 | Inr l \<Rightarrow> emit (EvPrint (MsgAllSaved (output_dir a))) w6)"
              by (simp_all add: main_def split: sum.splits)
            from res(2) ev have fin: "trace w = trace ?w5 @ ev @ ?tl" "files w = files w6"
              "dirs w = dirs w6"
              by (simp_all split: sum.splits)
            from eval_loop_dirs [OF el] fin(3) w5(3) have "dirs w = dirs w2'" by simp
            with fin res(1) ev el built w5 keys some ok ld(4)
              \<open>os_makedirs (output_dir a) w0 = Inr w2'\<close>
            show ?thesis
              by (intro evaluating [of w2' ld d llm ?w5 rl w6 ev ?tl]) simp_all
          qed
        qed
      qed
    qed
  qed
qed

lemma requested_known_subset: "set (requested_known a) \<subseteq> set all_datasets"
  by (auto simp: requested_known_def)

lemma evaluated_facts:
  "distinct (evaluated a)" "set (evaluated a) \<subseteq> set all_datasets"
  by (simp_all add: evaluated_def distinct_first_requests set_first_requests requested_known_subset)



text \<open>The projections of a whole run, in one place.\<close>

lemma main_projections:
  assumes "main env a w0 = (r, w)" and "trace w0 = []"
  shows "prefix (loaded_names (trace w)) (requested_known a)"
    and "prefix (prepared_names (trace w)) (evaluated a)"
    and "prefix (written_paths (trace w)) (map (report_path a) (evaluated a))"
    and "r = Inr () \<Longrightarrow> loaded_names (trace w) = requested_known a"
    and "r = Inr () \<Longrightarrow> prepared_names (trace w) = evaluated a"
    and "r = Inr () \<Longrightarrow> written_paths (trace w) = map (report_path a) (evaluated a)"
    and "\<forall>c \<in> set (generate_calls (trace w)). snd (snd c) = sampling_of a"
proof -
  have "prefix (loaded_names (trace w)) (requested_known a) \<and>
        prefix (prepared_names (trace w)) (evaluated a) \<and>
        prefix (written_paths (trace w)) (map (report_path a) (evaluated a)) \<and>
        (r = Inr () \<longrightarrow> loaded_names (trace w) = requested_known a \<and>
           prepared_names (trace w) = evaluated a \<and>
           written_paths (trace w) = map (report_path a) (evaluated a)) \<and>
        (\<forall>c \<in> set (generate_calls (trace w)). snd (snd c) = sampling_of a)"
    using assms
  proof (cases rule: main_run)
    case (no_directory e)
    then show ?thesis by simp
  next
    case (not_loaded w2 e ld)
    then show ?thesis by (simp add: load_events_projections)
  next
    case (no_op w2 ld)
    then show ?thesis by (simp add: load_events_projections evaluated_def)
  next
    case (engine_failed w2 e ld)
    then show ?thesis by (simp add: load_events_projections)
  next
    case (evaluating w2 ld d llm w5 rl w6 ev tl)
    note ldp = load_events_projections [OF evaluating(4)]
    from eval_loop_calls [OF evaluating(11,12)]
    have calls: "loaded_names ev = []" "\<forall>c \<in> set (generate_calls ev). snd (snd c) = sampling_of a"
      by simp_all
    from eval_loop_names [OF evaluating(11,12)] evaluating(6)
    have names: "prefix (prepared_names ev) (evaluated a)"
      "prefix (written_paths ev) (map (report_path a) (prepared_names ev))"
      "\<forall>l. rl = Inr l \<longrightarrow> prepared_names ev = evaluated a \<and>
         written_paths ev = map (report_path a) (evaluated a)"
      by simp_all
    from names(1) have "prefix (map (report_path a) (prepared_names ev)) (map (report_path a) (evaluated a))"
      by (rule map_mono_prefix)
    with names(2) have wp: "prefix (written_paths ev) (map (report_path a) (evaluated a))"
      by (rule prefix_order.trans)
    have tl: "loaded_names tl = []" "prepared_names tl = []" "written_paths tl = []"
      "generate_calls tl = []"
      using evaluating(14) by (simp_all split: sum.splits)
    have tr: "loaded_names (trace w) = requested_known a"
      "prepared_names (trace w) = prepared_names ev"
      "written_paths (trace w) = written_paths ev"
      "generate_calls (trace w) = generate_calls ev"
      using evaluating(15,8,5) ldp calls(1) tl by simp_all
    have fin: "r = Inr () \<longrightarrow> (\<exists>l. rl = Inr l)"
      using evaluating(13) by (cases rl) simp_all
    from tr names(1) wp names(3) calls(2) fin show ?thesis by auto
  qed
  then show "prefix (loaded_names (trace w)) (requested_known a)"
    and "prefix (prepared_names (trace w)) (evaluated a)"
    and "prefix (written_paths (trace w)) (map (report_path a) (evaluated a))"
    and "r = Inr () \<Longrightarrow> loaded_names (trace w) = requested_known a"
    and "r = Inr () \<Longrightarrow> prepared_names (trace w) = evaluated a"
    and "r = Inr () \<Longrightarrow> written_paths (trace w) = map (report_path a) (evaluated a)"
    and "\<forall>c \<in> set (generate_calls (trace w)). snd (snd c) = sampling_of a"
    by simp_all
qed

lemma run_pair: "main env a w0 = (fst (main env a w0), snd (main env a w0))"
  by simp

lemma fresh_trace: "trace fresh = []"
  by (simp add: fresh_def)

section \<open>Claims\<close>

text \<open>
  C7. In every run, each call of the engine's \<open>generate\<close> receives the sampling
  configuration made of the parsed temperature, top-p, maximum number of tokens and
  repetition penalty, and so every dataset's batch is generated with the same one.
\<close>

theorem sampling_configuration_fixed:
  assumes "main env a w0 = (r, w)" and "trace w0 = []"
    and "EvGenerate l ps sp \<in> set (trace w)"
  shows "sp = \<lparr> sp_temperature = temperature a, sp_top_p = top_p a,
                sp_max_tokens = max_tokens a, sp_repetition_penalty = repetition_penalty a \<rparr>"
proof -
  from assms(3) have "(l, ps, sp) \<in> set (generate_calls (trace w))"
    by (simp add: generate_event_iff)
  with main_projections(7) [OF assms(1,2)] have "sp = sampling_of a" by auto
  then show ?thesis by (simp add: sampling_of_def)
qed

theorem sampling_configuration_fixed_witness:
  "EvGenerate (Suc 0) [] \<lparr> sp_temperature = PyFloat 0 0, sp_top_p = PyFloat 95 (-2),
       sp_max_tokens = 2048, sp_repetition_penalty = PyFloat 1 0 \<rparr>
     \<in> set (trace (snd (main env_ok args_two fresh)))
   \<and> \<lparr> sp_temperature = PyFloat 0 0, sp_top_p = PyFloat 95 (-2),
       sp_max_tokens = 2048, sp_repetition_penalty = PyFloat 1 0 \<rparr>
     = \<lparr> sp_temperature = temperature args_two, sp_top_p = top_p args_two,
         sp_max_tokens = max_tokens args_two,
         sp_repetition_penalty = repetition_penalty args_two \<rparr>"
proof -
  have call: "EvGenerate (Suc 0) [] \<lparr> sp_temperature = PyFloat 0 0, sp_top_p = PyFloat 95 (-2),
       sp_max_tokens = 2048, sp_repetition_penalty = PyFloat 1 0 \<rparr>
     \<in> set (trace (snd (main env_ok args_two fresh)))"
    by code_simp
  from sampling_configuration_fixed [OF run_pair fresh_trace call] call show ?thesis
    by simp
qed

lemma load_loop_unknown:
  assumes "set ns \<inter> set all_datasets = {}"
  shows "load_loop env a ns st = (Inr (fst st), snd st)"
  using assms
proof (induction ns arbitrary: st)
  case Nil
  show ?case by simp
next
  case (Cons n ns)
  then have "n \<notin> set all_datasets" "set ns \<inter> set all_datasets = {}" by auto
  with Cons.IH [of st] show ?case
    using loader_of_None_iff [of env n] by (simp add: load_one_loader_of)
qed

lemma requested_known_Nil_iff:
  "requested_known a = [] \<longleftrightarrow> set (datasets_to_eval a) \<inter> set all_datasets = {}"
  by (auto simp: requested_known_def filter_empty_conv)

lemma main_no_known:
  assumes "requested_known a = []" and "os_makedirs (output_dir a) w0 = Inr w2"
  shows "main env a w0 =
           (Inr (), emit (EvPrint MsgNoDatasets) (emit (EvMakedirs (output_dir a)) w2))"
proof -
  from assms(1) have "set (datasets_to_eval a) \<inter> set all_datasets = {}"
    by (simp add: requested_known_Nil_iff)
  then have "load_loop env a (datasets_to_eval a) ([], emit (EvMakedirs (output_dir a)) w2)
             = (Inr [], emit (EvMakedirs (output_dir a)) w2)"
    by (simp add: load_loop_unknown)
  with assms(2) show ?thesis
    by (simp add: main_def os_makedirs_emit)
qed

lemma main_load_failure:
  assumes "os_makedirs (output_dir a) w0 = Inr w2"
    and "datasets_to_eval a = pre @ n # post"
    and "load_loop env a pre ([], emit (EvMakedirs (output_dir a)) w2) = (Inr d, w3)"
    and "loader_of env n = Some (f, shown)"
    and "f (data_path a) = Inl e"
  shows "main env a w0 = (Inl e, emit (EvLoad n (data_path a)) w3)"
proof -
  have "load_one env a n (d, w3) = (Inl e, emit (EvLoad n (data_path a)) w3)"
    using assms(4,5) by (simp add: load_one_loader_of load_with_def)
  then have "load_loop env a (n # post) (d, w3) = (Inl e, emit (EvLoad n (data_path a)) w3)"
    by simp
  with assms(2,3)
  have "load_loop env a (datasets_to_eval a) ([], emit (EvMakedirs (output_dir a)) w2)
        = (Inl e, emit (EvLoad n (data_path a)) w3)"
    by (simp add: load_loop_append)
  with assms(1) show ?thesis
    by (simp add: main_def os_makedirs_emit)
qed

text \<open>
  C1. The specification says that a dataset whose loader raises is skipped with a diagnostic
  and that the run goes on to the remaining datasets. The code has no handler: with
  the Geo3K files missing and \<^verbatim>\<open>--datasets geo3k,wemath\<close>, the run ends with the
  loader's exception and WeMath is never attempted.
\<close>

theorem load_error_not_skipped:
  "datasets_to_eval args_two = [''geo3k'', ''wemath'']
   \<and> load_geo3k_dataset env_missing (data_path args_two) = Inl DataLoadError
   \<and> load_wemath_dataset env_missing (data_path args_two) = Inr []
   \<and> fst (main env_missing args_two fresh) = Inl DataLoadError
   \<and> ''wemath'' \<notin> set (loaded_names (trace (snd (main env_missing args_two fresh))))
   \<and> trace (snd (main env_missing args_two fresh))
       = [EvMakedirs ''out'', EvLoad ''geo3k'' ''NoisyRollout/eval/data'']"
  by code_simp

text \<open>
  C1, as the code has it. When the loader of a requested dataset raises, the exception
  is not caught and the run ends there with it: the datasets requested before it have
  been loaded, nothing is tried after the failed call (it is the last event of the run),
  the engine is never built, nothing is generated, no report is written and no file
  is touched.
\<close>

theorem load_error_ends_run:
  assumes "os_makedirs (output_dir a) w0 = Inr w2" and "trace w0 = []"
    and "datasets_to_eval a = pre @ n # post"
    and "load_loop env a pre ([], emit (EvMakedirs (output_dir a)) w2) = (Inr d, w3)"
    and "loader_of env n = Some (f, shown)"
    and "f (data_path a) = Inl e"
  shows "main env a w0 = (Inl e, emit (EvLoad n (data_path a)) w3)
       \<and> loaded_names (trace (emit (EvLoad n (data_path a)) w3))
           = filter (\<lambda>m. m \<in> set all_datasets) pre @ [n]
       \<and> llm_inits (trace (emit (EvLoad n (data_path a)) w3)) = []
       \<and> generate_calls (trace (emit (EvLoad n (data_path a)) w3)) = []
       \<and> written_paths (trace (emit (EvLoad n (data_path a)) w3)) = []
       \<and> files (emit (EvLoad n (data_path a)) w3) = files w0"
proof -
  have ends: "main env a w0 = (Inl e, emit (EvLoad n (data_path a)) w3)"
    using assms(1,3,4,5,6) by (rule main_load_failure)
  from os_makedirs_Inr [OF assms(1)] assms(2)
  have w2: "trace w2 = []" "files w2 = files w0" by simp_all
  from load_loop_world [OF assms(4)] obtain new where new:
    "files w3 = files w0" "trace w3 = EvMakedirs (output_dir a) # new"
    "list_all is_load_event new"
    "loaded_names new = filter (\<lambda>m. m \<in> set all_datasets) pre"
    using w2 by auto
  note quiet = load_events_projections [OF new(3)]
  from ends new(1,2,4) quiet show ?thesis by simp
qed

theorem load_error_ends_run_witness:
  "main env_missing (args_two\<lparr>datasets := ''wemath,geo3k,mathvista''\<rparr>) fresh
     = (Inl DataLoadError,
        \<lparr>dirs = {''out''}, files = Map.empty,
         trace = [EvMakedirs ''out'', EvLoad ''wemath'' ''NoisyRollout/eval/data'',
                  EvPrint (MsgLoaded 0 ''WeMath''),
                  EvLoad ''geo3k'' ''NoisyRollout/eval/data'']\<rparr>)"
proof -
  let ?a = "args_two\<lparr>datasets := ''wemath,geo3k,mathvista''\<rparr>"
  let ?w2 = "\<lparr>dirs = {''out''}, files = Map.empty, trace = []\<rparr> :: nat world"
  let ?w3 = "\<lparr>dirs = {''out''}, files = Map.empty,
              trace = [EvMakedirs ''out'', EvLoad ''wemath'' ''NoisyRollout/eval/data'',
                       EvPrint (MsgLoaded 0 ''WeMath'')]\<rparr> :: nat world"
  have mk: "os_makedirs (output_dir ?a) fresh = Inr ?w2"
    by (simp add: os_makedirs_def fresh_def args_two_def default_args_def dir_key_def rstrip_sep_def)
  have req: "datasets_to_eval ?a = [''wemath''] @ ''geo3k'' # [''mathvista'']"
    by (simp add: datasets_to_eval_def args_two_def default_args_def)
  have before: "load_loop env_missing ?a [''wemath''] ([], emit (EvMakedirs (output_dir ?a)) ?w2)
                  = (Inr [(''wemath'', [])], ?w3)"
    by (simp add: load_one_def load_with_def env_missing_def env_ok_def emit_def
        args_two_def default_args_def)
  have which: "loader_of env_missing ''geo3k'' = Some (load_geo3k_dataset env_missing, ''Geo3K'')"
    by (simp add: loader_of_def)
  have raises: "load_geo3k_dataset env_missing (data_path ?a) = Inl DataLoadError"
    by (simp add: env_missing_def)
  from load_error_ends_run [OF mk fresh_trace req before which raises]
  show ?thesis by (simp add: emit_def args_two_def default_args_def)
qed

text \<open>
  C4. The specification says that the early return ends the program with an exit code that
  tells that nothing was done. \<open>main\<close> returns plainly on that path, so the exit status
  is 0, the status of a run that wrote its reports: with \<^verbatim>\<open>--datasets imagenet\<close> nothing
  is written and with \<^verbatim>\<open>--datasets geo3k,wemath\<close> two reports are, and both runs end
  with the same status.
\<close>

theorem no_op_exit_code_not_distinct:
  "EvPrint MsgNoDatasets \<in> set (trace (snd (main env_ok args_unknown fresh)))
   \<and> written_paths (trace (snd (main env_ok args_unknown fresh))) = []
   \<and> written_paths (trace (snd (main env_ok args_two fresh)))
       = [''out/geo3k.json'', ''out/wemath.json'']
   \<and> exit_code (fst (main env_ok args_unknown fresh)) = 0
   \<and> exit_code (fst (main env_ok args_two fresh)) = 0"
  by code_simp

text \<open>
  C4, as the code has it. When the output directory can be made and no requested name
  is one the loading chain knows (so that \<^verbatim>\<open>all_samples\<close> stays empty), the run prints
  the notice and returns: after \<^verbatim>\<open>makedirs\<close> the notice is the only event, so the engine
  is not built, nothing is generated, no report is written and no file changes. The
  return is a plain one, and the exit status is 0 as for every run that returns.
\<close>

theorem no_op_returns_early:
  assumes "main env a w0 = (r, w)" and "trace w0 = []"
    and "os_makedirs (output_dir a) w0 = Inr w2"
    and "requested_known a = []"
  shows "r = Inr () \<and> exit_code r = 0
       \<and> trace w = [EvMakedirs (output_dir a), EvPrint MsgNoDatasets]
       \<and> llm_inits (trace w) = [] \<and> generate_calls (trace w) = []
       \<and> written_paths (trace w) = [] \<and> files w = files w0"
proof -
  from main_no_known [OF assms(4,3), of env] assms(1)
  have "r = Inr ()"
    "w = emit (EvPrint MsgNoDatasets) (emit (EvMakedirs (output_dir a)) w2)"
    by simp_all
  with os_makedirs_Inr [OF assms(3)] assms(2) show ?thesis
    by (simp add: exit_code_def)
qed

theorem no_op_returns_early_witness:
  "fst (main env_ok args_unknown fresh) = Inr ()
   \<and> exit_code (fst (main env_ok args_unknown fresh)) = 0
   \<and> trace (snd (main env_ok args_unknown fresh)) = [EvMakedirs ''out'', EvPrint MsgNoDatasets]
   \<and> files (snd (main env_ok args_unknown fresh)) = files fresh"
proof -
  have mk: "os_makedirs (output_dir args_unknown) fresh
              = Inr (\<lparr>dirs = {''out''}, files = Map.empty, trace = []\<rparr> :: nat world)"
    by (simp add: os_makedirs_def fresh_def args_unknown_def default_args_def dir_key_def
        rstrip_sep_def)
  have none: "requested_known args_unknown = []"
    by (simp add: requested_known_def datasets_to_eval_def args_unknown_def default_args_def
        all_datasets_def)
  from no_op_returns_early [OF run_pair [of env_ok args_unknown fresh] fresh_trace mk none]
  show ?thesis by (simp add: args_unknown_def default_args_def exit_code_def)
qed

text \<open>
  C9. A requested name that is not one of the six is passed over by the loading chain:
  the iteration changes neither the samples nor the world and raises nothing, so the
  loop over a request with the name in it is the loop over the request without it.
  In no run is such a name loaded or evaluated, and every report written is the report
  of a known dataset that was requested. When no requested name is known, the run takes
  the early return.
\<close>

theorem unknown_names_ignored:
  "(n \<notin> set all_datasets \<longrightarrow>
      load_one env a n st = (Inr (fst st), snd st) \<and>
      load_loop env a (pre @ n # post) st = load_loop env a (pre @ post) st)
   \<and> (main env a w0 = (r, w) \<and> trace w0 = [] \<and> n \<notin> set all_datasets \<longrightarrow>
        n \<notin> set (loaded_names (trace w)) \<and> n \<notin> set (prepared_names (trace w)) \<and>
        set (written_paths (trace w)) \<subseteq> report_path a ` set (evaluated a) \<and>
        set (evaluated a) \<subseteq> set all_datasets)
   \<and> (main env a w0 = (r, w) \<and> trace w0 = [] \<and> os_makedirs (output_dir a) w0 = Inr w2 \<and>
        (\<forall>m \<in> set (datasets_to_eval a). m \<notin> set all_datasets) \<longrightarrow>
        r = Inr () \<and> trace w = [EvMakedirs (output_dir a), EvPrint MsgNoDatasets])"
proof (intro conjI impI)
  assume unknown: "n \<notin> set all_datasets"
  then show one: "load_one env a n st = (Inr (fst st), snd st)"
    using loader_of_None_iff [of env n] by (simp add: load_one_loader_of)
  have "load_loop env a (n # post) st' = load_loop env a post st'" for st'
    using unknown loader_of_None_iff [of env n] by (simp add: load_one_loader_of)
  then show "load_loop env a (pre @ n # post) st = load_loop env a (pre @ post) st"
    by (simp add: load_loop_append split: prod.splits sum.splits)
next
  assume h: "main env a w0 = (r, w) \<and> trace w0 = [] \<and> n \<notin> set all_datasets"
  then have run: "main env a w0 = (r, w)" and start: "trace w0 = []"
    and unknown: "n \<notin> set all_datasets" by simp_all
  note proj = main_projections [OF run start]
  from proj(1) have "set (loaded_names (trace w)) \<subseteq> set (requested_known a)"
    by (rule set_mono_prefix)
  with requested_known_subset unknown show "n \<notin> set (loaded_names (trace w))" by blast
  from proj(2) have "set (prepared_names (trace w)) \<subseteq> set (evaluated a)"
    by (rule set_mono_prefix)
  with evaluated_facts(2) unknown show "n \<notin> set (prepared_names (trace w))" by blast
  from proj(3) have "set (written_paths (trace w)) \<subseteq> set (map (report_path a) (evaluated a))"
    by (rule set_mono_prefix)
  then show "set (written_paths (trace w)) \<subseteq> report_path a ` set (evaluated a)" by simp
  show "set (evaluated a) \<subseteq> set all_datasets" by (rule evaluated_facts(2))
next
  assume h: "main env a w0 = (r, w) \<and> trace w0 = [] \<and> os_makedirs (output_dir a) w0 = Inr w2 \<and>
        (\<forall>m \<in> set (datasets_to_eval a). m \<notin> set all_datasets)"
  then have none: "requested_known a = []"
    by (auto simp: requested_known_Nil_iff)
  from h main_no_known [OF none, of w0 w2 env]
  have res: "r = Inr ()"
    "w = emit (EvPrint MsgNoDatasets) (emit (EvMakedirs (output_dir a)) w2)"
    by simp_all
  from res(1) show "r = Inr ()" .
  from res(2) h os_makedirs_Inr(2) [of "output_dir a" w0 w2]
  show "trace w = [EvMakedirs (output_dir a), EvPrint MsgNoDatasets]" by simp
qed

theorem unknown_names_ignored_witness:
  "''imagenet'' \<notin> set all_datasets
   \<and> load_one env_ok args_unknown ''imagenet'' ([], fresh) = (Inr [], fresh)
   \<and> ''imagenet'' \<notin> set (loaded_names (trace (snd (main env_ok args_unknown fresh))))
   \<and> fst (main env_ok args_unknown fresh) = Inr ()
   \<and> trace (snd (main env_ok args_unknown fresh)) = [EvMakedirs ''out'', EvPrint MsgNoDatasets]"
proof -
  have unknown: "''imagenet'' \<notin> set all_datasets"
    by (simp add: all_datasets_def)
  have mk: "os_makedirs (output_dir args_unknown) fresh
              = Inr (\<lparr>dirs = {''out''}, files = Map.empty, trace = []\<rparr> :: nat world)"
    by (simp add: os_makedirs_def fresh_def args_unknown_def default_args_def dir_key_def
        rstrip_sep_def)
  have all: "\<forall>m \<in> set (datasets_to_eval args_unknown). m \<notin> set all_datasets"
    by (simp add: datasets_to_eval_def args_unknown_def default_args_def all_datasets_def)
  from unknown_names_ignored [of "''imagenet''" env_ok args_unknown "([], fresh)" "[]" "[]"
      fresh "fst (main env_ok args_unknown fresh)" "snd (main env_ok args_unknown fresh)"
      "\<lparr>dirs = {''out''}, files = Map.empty, trace = []\<rparr>"]
    unknown mk all fresh_trace
  show ?thesis by (simp add: args_unknown_def default_args_def)
qed



lemma split_before_suffix:
  assumes "xs @ ys = bs @ e # as" and "e \<notin> set ys"
  shows "\<exists>cs. as = cs @ ys \<and> xs = bs @ e # cs"
proof -
  from assms(1) obtain us where
    "(xs = bs @ us \<and> us @ ys = e # as) \<or> (xs @ us = bs \<and> ys = us @ e # as)"
    by (auto simp: append_eq_append_conv2)
  then show ?thesis
  proof
    assume h: "xs = bs @ us \<and> us @ ys = e # as"
    show ?thesis
    proof (cases us)
      case Nil
      with h have "e \<in> set ys" by simp
      with assms(2) show ?thesis by simp
    next
      case (Cons u us')
      with h show ?thesis by simp
    qed
  next
    assume "xs @ us = bs \<and> ys = us @ e # as"
    then have "e \<in> set ys" by simp
    with assms(2) show ?thesis by simp
  qed
qed

lemma split_unique:
  assumes "xs @ e # ys = bs @ e # as" and "e \<notin> set xs" and "e \<notin> set ys"
  shows "bs = xs \<and> as = ys"
proof -
  from split_after_prefix [OF assms(1,2)] obtain cs where
    cs: "bs = xs @ cs" "e # ys = cs @ e # as" by blast
  show ?thesis
  proof (cases cs)
    case Nil
    with cs show ?thesis by simp
  next
    case (Cons c cs')
    with cs(2) have "e \<in> set ys" by simp
    with assms(3) show ?thesis by simp
  qed
qed

lemma llm_event_iff: "cfg \<in> set (llm_inits tr) \<longleftrightarrow> EvLLM cfg \<in> set tr"
proof (induction tr)
  case Nil
  show ?case by simp
next
  case (Cons e tr)
  then show ?case by (cases e) auto
qed

lemma chained_quiet_tail:
  "generate_calls ys = [] \<Longrightarrow> chained env cur (xs @ ys) = chained env cur xs"
proof (induction xs arbitrary: cur)
  case Nil
  then show ?case by (simp add: chained_no_calls)
next
  case (Cons e xs)
  then show ?case by (cases e) (simp_all split: sum.splits)
qed

lemma no_llm_event:
  assumes "llm_inits tr = []"
  shows "tr \<noteq> before @ EvLLM cfg # after"
proof
  assume "tr = before @ EvLLM cfg # after"
  with assms show False by simp
qed

lemma os_makedirs_isl_emit:
  "isl (os_makedirs p (emit e w)) = isl (os_makedirs p w)"
  by (simp add: os_makedirs_emit split: sum.splits)

text \<open>
  C6. The specification says that every run builds the engine exactly once. A run that takes
  the early return builds none: with \<^verbatim>\<open>--datasets imagenet\<close> the run returns normally
  and the constructor is never called.
\<close>

theorem engine_not_built_in_every_run:
  "fst (main env_ok args_unknown fresh) = Inr ()
   \<and> llm_inits (trace (snd (main env_ok args_unknown fresh))) = []"
  by code_simp

text \<open>
  C6, as the code has it. The engine is built at most once in a run: exactly once when
  the output directory could be made, every requested known dataset loaded and there
  was at least one, and not at all otherwise. Where it is built, every loader call
  is before it and every \<open>generate\<close> call after it, and the calls are made on the one
  engine that the constructor returned: the first receives it, each later one receives
  it as the call before left it, and the orchestrator does nothing else to it.
\<close>

theorem engine_built_once_and_shared:
  assumes "main env a w0 = (r, w)" and "trace w0 = []"
  shows "llm_inits (trace w) =
           (if \<not> isl (os_makedirs (output_dir a) w0) \<and> all_loaded env a \<and> requested_known a \<noteq> []
            then [llm_config_of a] else [])
       \<and> (llm_inits (trace w) = [] \<longrightarrow> generate_calls (trace w) = [])
       \<and> (\<forall>before after. trace w = before @ EvLLM (llm_config_of a) # after \<longrightarrow>
             loaded_names before = requested_known a \<and> generate_calls before = [] \<and>
             loaded_names after = [] \<and>
             (case LLM env (llm_config_of a) of
                Inl e \<Rightarrow> generate_calls after = []
              | Inr llm \<Rightarrow> chained env llm after))"
  using assms
proof (cases rule: main_run)
  case (no_directory e)
  then have none: "llm_inits (trace w) = []" "generate_calls (trace w) = []" by simp_all
  from no_llm_event [OF none(1)] none no_directory(1) show ?thesis by simp
next
  case (not_loaded w2 e ld)
  note quiet = load_events_projections [OF not_loaded(5)]
  from not_loaded(4) quiet
  have none: "llm_inits (trace w) = []" "generate_calls (trace w) = []" by simp_all
  from no_llm_event [OF none(1)] none not_loaded(3) show ?thesis by simp
next
  case (no_op w2 ld)
  note quiet = load_events_projections [OF no_op(6)]
  from no_op(5) quiet
  have none: "llm_inits (trace w) = []" "generate_calls (trace w) = []" by simp_all
  from no_llm_event [OF none(1)] none no_op(4) show ?thesis by simp
next
  case (engine_failed w2 e ld)
  note quiet = load_events_projections [OF engine_failed(6)]
  let ?pre = "EvMakedirs (output_dir a) # ld @ [EvPrint (MsgInitializing (model a))]"
  have shape: "trace w = ?pre @ EvLLM (llm_config_of a) # []"
    using engine_failed(5) by simp
  have absent: "EvLLM (llm_config_of a) \<notin> set ?pre"
    using quiet(4) llm_event_iff [of "llm_config_of a" ?pre] by simp
  have pre: "loaded_names ?pre = requested_known a" "generate_calls ?pre = []"
    using engine_failed(7) quiet by simp_all
  have inits: "llm_inits (trace w) = [llm_config_of a]"
    using engine_failed(5) quiet by simp
  have anywhere: "loaded_names before = requested_known a \<and> generate_calls before = [] \<and>
          loaded_names after = [] \<and>
          (case LLM env (llm_config_of a) of
             Inl e \<Rightarrow> generate_calls after = []
           | Inr llm \<Rightarrow> chained env llm after)"
    if "trace w = before @ EvLLM (llm_config_of a) # after" for before after
  proof -
    from that shape have "?pre @ EvLLM (llm_config_of a) # [] = before @ EvLLM (llm_config_of a) # after"
      by simp
    from split_unique [OF this absent] have "before = ?pre" "after = []" by simp_all
    with pre show ?thesis by (simp split: sum.splits)
  qed
  from inits anywhere engine_failed(1,3,4) show ?thesis by simp
next
  case (evaluating w2 ld d llm w5 rl w6 ev tl)
  note quiet = load_events_projections [OF evaluating(4)]
  from eval_loop_calls [OF evaluating(11,12)]
  have calls: "loaded_names ev = []" "llm_inits ev = []" "chained env llm ev" by simp_all
  have tl: "loaded_names tl = []" "llm_inits tl = []" "generate_calls tl = []"
    using evaluating(14) by (simp_all split: sum.splits)
  let ?pre = "EvMakedirs (output_dir a) # ld @ [EvPrint (MsgInitializing (model a))]"
  have shape: "trace w = ?pre @ EvLLM (llm_config_of a) # (ev @ tl)"
    using evaluating(15,8) by simp
  have absent: "EvLLM (llm_config_of a) \<notin> set ?pre"
    using quiet(4) llm_event_iff [of "llm_config_of a" ?pre] by simp
  have absent': "EvLLM (llm_config_of a) \<notin> set (ev @ tl)"
    using calls(2) tl(2) llm_event_iff [of "llm_config_of a" "ev @ tl"] by simp
  have pre: "loaded_names ?pre = requested_known a" "generate_calls ?pre = []"
    using evaluating(5) quiet by simp_all
  have inits: "llm_inits (trace w) = [llm_config_of a]"
    using shape quiet calls(2) tl(2) by simp
  have anywhere: "loaded_names before = requested_known a \<and> generate_calls before = [] \<and>
          loaded_names after = [] \<and>
          (case LLM env (llm_config_of a) of
             Inl e \<Rightarrow> generate_calls after = []
           | Inr llm \<Rightarrow> chained env llm after)"
    if "trace w = before @ EvLLM (llm_config_of a) # after" for before after
  proof -
    from that shape
    have "?pre @ EvLLM (llm_config_of a) # (ev @ tl) = before @ EvLLM (llm_config_of a) # after"
      by simp
    from split_unique [OF this absent absent'] have "before = ?pre" "after = ev @ tl"
      by simp_all
    with pre calls(1,3) tl(1,3) evaluating(7) show ?thesis
      by (simp add: chained_quiet_tail)
  qed
  from inits anywhere evaluating(1,2,3) show ?thesis by simp
qed

theorem engine_built_once_and_shared_witness:
  "llm_inits (trace (snd (main env_ok args_two fresh))) = [llm_config_of args_two]
   \<and> loaded_names (take 6 (trace (snd (main env_ok args_two fresh)))) = requested_known args_two
   \<and> generate_calls (take 6 (trace (snd (main env_ok args_two fresh)))) = []
   \<and> loaded_names (drop 7 (trace (snd (main env_ok args_two fresh)))) = []
   \<and> chained env_ok 0 (drop 7 (trace (snd (main env_ok args_two fresh))))
   \<and> generate_calls (drop 7 (trace (snd (main env_ok args_two fresh))))
       = [(0, [PStr ''q1'', PStr ''q2''], sampling_of args_two), (Suc 0, [], sampling_of args_two)]"
proof -
  have mk: "\<not> isl (os_makedirs (output_dir args_two) fresh)"
    by (simp add: os_makedirs_def fresh_def args_two_def default_args_def)
  have loaded: "all_loaded env_ok args_two"
    by code_simp
  have some: "requested_known args_two \<noteq> []"
    by code_simp
  have built: "LLM env_ok (llm_config_of args_two) = Inr 0"
    by (simp add: env_ok_def)
  have at: "trace (snd (main env_ok args_two fresh))
              = take 6 (trace (snd (main env_ok args_two fresh)))
                @ EvLLM (llm_config_of args_two)
                # drop 7 (trace (snd (main env_ok args_two fresh)))"
    by code_simp
  have calls: "generate_calls (drop 7 (trace (snd (main env_ok args_two fresh))))
       = [(0, [PStr ''q1'', PStr ''q2''], sampling_of args_two), (Suc 0, [], sampling_of args_two)]"
    by code_simp
  note whole = engine_built_once_and_shared [OF run_pair [of env_ok args_two fresh] fresh_trace]
  from whole [THEN conjunct1] mk loaded some
  have c1: "llm_inits (trace (snd (main env_ok args_two fresh))) = [llm_config_of args_two]"
    by simp
  from whole [THEN conjunct2, THEN conjunct2, THEN spec, THEN spec, THEN mp, OF at] built
  have c2: "loaded_names (take 6 (trace (snd (main env_ok args_two fresh)))) = requested_known args_two
   \<and> generate_calls (take 6 (trace (snd (main env_ok args_two fresh)))) = []
   \<and> loaded_names (drop 7 (trace (snd (main env_ok args_two fresh)))) = []
   \<and> chained env_ok 0 (drop 7 (trace (snd (main env_ok args_two fresh))))"
    by simp
  from c1 c2 calls show ?thesis by blast
qed

lemma no_prepare_event:
  assumes "prepared_names tr = []"
  shows "tr \<noteq> before @ EvPrepare m # after"
proof
  assume "tr = before @ EvPrepare m # after"
  with assms show False by simp
qed

lemma no_write_event:
  assumes "written_paths tr = []"
  shows "tr \<noteq> before @ EvWrite p doc # after"
proof
  assume "tr = before @ EvWrite p doc # after"
  with assms show False by simp
qed



text \<open>The state of the disk after any run, and where its writes stand in the trace.\<close>

lemma main_writes:
  assumes "main env a w0 = (r, w)" and "trace w0 = []"
    and "trace w = before @ EvWrite p doc # after"
  shows "files w p = Some doc"
    and "loaded_names before = requested_known a" and "loaded_names after = []"
    and "\<exists>results metrics. doc = report_doc results metrics a \<and>
           calculate_metrics env results = Inr metrics \<and>
           (r = Inr () \<longrightarrow> ''accuracy'' \<in> fst ` set metrics)"
proof -
  have "files w p = Some doc \<and>
        loaded_names before = requested_known a \<and> loaded_names after = [] \<and>
        (\<exists>results metrics. doc = report_doc results metrics a \<and>
           calculate_metrics env results = Inr metrics \<and>
           (r = Inr () \<longrightarrow> ''accuracy'' \<in> fst ` set metrics))"
    using assms(1,2)
  proof (cases rule: main_run)
    case (no_directory e)
    then have "written_paths (trace w) = []" by simp
    from no_write_event [OF this] assms(3) show ?thesis by blast
  next
    case (not_loaded w2 e ld)
    with load_events_projections [OF not_loaded(5)]
    have "written_paths (trace w) = []" by simp
    from no_write_event [OF this] assms(3) show ?thesis by blast
  next
    case (no_op w2 ld)
    with load_events_projections [OF no_op(6)]
    have "written_paths (trace w) = []" by simp
    from no_write_event [OF this] assms(3) show ?thesis by blast
  next
    case (engine_failed w2 e ld)
    with load_events_projections [OF engine_failed(6)]
    have "written_paths (trace w) = []" by simp
    from no_write_event [OF this] assms(3) show ?thesis by blast
  next
    case (evaluating w2 ld d llm w5 rl w6 ev tl)
    note quiet = load_events_projections [OF evaluating(4)]
    have pre: "EvWrite p doc \<notin> set (trace w5)" "loaded_names (trace w5) = requested_known a"
      using evaluating(8,5) quiet(2) write_event_iff [of p "trace w5"] by auto
    have tl: "EvWrite p doc \<notin> set tl" "loaded_names tl = []"
      using evaluating(14) by (auto split: sum.splits)
    from assms(3) evaluating(15)
    have "trace w5 @ (ev @ tl) = before @ EvWrite p doc # after" by simp
    from split_after_prefix [OF this pre(1)] obtain cs where
      cs: "before = trace w5 @ cs" "ev @ tl = cs @ EvWrite p doc # after" by blast
    from split_before_suffix [OF cs(2) tl(1)] obtain cs' where
      cs': "after = cs' @ tl" "ev = cs @ EvWrite p doc # cs'" by blast
    from eval_loop_calls [OF evaluating(11,12)] have "loaded_names ev = []" by simp
    with cs' have quiet_ev: "loaded_names cs = []" "loaded_names cs' = []" by simp_all
    have here: "EvWrite p doc \<in> set ev" using cs'(2) by simp
    have keys: "distinct (map fst d)" "set (map fst d) \<subseteq> set all_datasets"
      using evaluating(6) evaluated_facts by simp_all
    from eval_loop_files [OF evaluating(11,12) keys here] evaluating(16)
    have disk: "files w p = Some doc" by simp
    from eval_loop_docs [OF evaluating(11,12) here] obtain results metrics where
      doc: "doc = report_doc results metrics a" "calculate_metrics env results = Inr metrics"
      "\<forall>l. rl = Inr l \<longrightarrow> ''accuracy'' \<in> fst ` set metrics"
      by blast
    have "r = Inr () \<longrightarrow> (\<exists>l. rl = Inr l)"
      using evaluating(13) by (cases rl) simp_all
    with doc(3) have acc: "r = Inr () \<longrightarrow> ''accuracy'' \<in> fst ` set metrics" by blast
    have "\<exists>results metrics. doc = report_doc results metrics a \<and>
           calculate_metrics env results = Inr metrics \<and>
           (r = Inr () \<longrightarrow> ''accuracy'' \<in> fst ` set metrics)"
      using doc(1,2) acc by (intro exI [of _ results] exI [of _ metrics]) simp
    with disk cs(1) cs'(1) pre(2) tl(2) quiet_ev show ?thesis by simp
  qed
  then show "files w p = Some doc"
    and "loaded_names before = requested_known a" and "loaded_names after = []"
    and "\<exists>results metrics. doc = report_doc results metrics a \<and>
           calculate_metrics env results = Inr metrics \<and>
           (r = Inr () \<longrightarrow> ''accuracy'' \<in> fst ` set metrics)"
    by simp_all
qed

lemma main_prepares:
  assumes "main env a w0 = (r, w)" and "trace w0 = []"
    and "trace w = before @ EvPrepare m # after"
    and "n \<in> set (prepared_names before)"
  shows "\<exists>doc. EvWrite (report_path a n) doc \<in> set before"
  using assms(1,2)
proof (cases rule: main_run)
  case (no_directory e)
  then have "prepared_names (trace w) = []" by simp
  from no_prepare_event [OF this] assms(3) show ?thesis by blast
next
  case (not_loaded w2 e ld)
  with load_events_projections [OF not_loaded(5)]
  have "prepared_names (trace w) = []" by simp
  from no_prepare_event [OF this] assms(3) show ?thesis by blast
next
  case (no_op w2 ld)
  with load_events_projections [OF no_op(6)]
  have "prepared_names (trace w) = []" by simp
  from no_prepare_event [OF this] assms(3) show ?thesis by blast
next
  case (engine_failed w2 e ld)
  with load_events_projections [OF engine_failed(6)]
  have "prepared_names (trace w) = []" by simp
  from no_prepare_event [OF this] assms(3) show ?thesis by blast
next
  case (evaluating w2 ld d llm w5 rl w6 ev tl)
  note quiet = load_events_projections [OF evaluating(4)]
  have pre: "EvPrepare m \<notin> set (trace w5)" "prepared_names (trace w5) = []"
    using evaluating(8) quiet(1) prepare_event_iff [of m "trace w5"] by auto
  have tl: "EvPrepare m \<notin> set tl"
    using evaluating(14) by (auto split: sum.splits)
  from assms(3) evaluating(15)
  have "trace w5 @ (ev @ tl) = before @ EvPrepare m # after" by simp
  from split_after_prefix [OF this pre(1)] obtain cs where
    cs: "before = trace w5 @ cs" "ev @ tl = cs @ EvPrepare m # after" by blast
  from split_before_suffix [OF cs(2) tl] obtain cs' where
    cs': "after = cs' @ tl" "ev = cs @ EvPrepare m # cs'" by blast
  from assms(4) cs(1) pre(2) have "n \<in> set (prepared_names cs)" by simp
  from eval_loop_order [OF evaluating(11,12) cs'(2) this] cs(1) show ?thesis by auto
qed

text \<open>
  C3. The specification says that the report of one dataset is on disk before any work on the
  next dataset begins. Loading is work on a dataset, and all loading comes first: with
  \<^verbatim>\<open>--datasets geo3k,wemath\<close> the WeMath loader has been called when no report has been
  written yet; and with \<^verbatim>\<open>--datasets wemath,geo3k\<close> and the Geo3K files missing, the run
  ends in the Geo3K loader and leaves no report for WeMath.
\<close>

theorem next_dataset_loaded_before_report:
  "take 4 (trace (snd (main env_ok args_two fresh)))
     = [EvMakedirs ''out'', EvLoad ''geo3k'' ''NoisyRollout/eval/data'',
        EvPrint (MsgLoaded 2 ''Geo3K''), EvLoad ''wemath'' ''NoisyRollout/eval/data'']
   \<and> written_paths (take 4 (trace (snd (main env_ok args_two fresh)))) = []
   \<and> written_paths (trace (snd (main env_ok args_two fresh)))
       = [''out/geo3k.json'', ''out/wemath.json'']
   \<and> fst (main env_missing (args_two\<lparr>datasets := ''wemath,geo3k''\<rparr>) fresh) = Inl DataLoadError
   \<and> loaded_names (trace (snd (main env_missing (args_two\<lparr>datasets := ''wemath,geo3k''\<rparr>) fresh)))
       = [''wemath'', ''geo3k'']
   \<and> written_paths (trace (snd (main env_missing (args_two\<lparr>datasets := ''wemath,geo3k''\<rparr>) fresh)))
       = []"
  by code_simp

text \<open>
  C3, as the code has it. Within the evaluation loop the reports are written in turn:
  when the evaluation of a dataset begins (its prompts are prepared), the report of
  every dataset begun before it has been written. Loading is not part of the turn:
  when a report is written, every requested known dataset has been loaded and none is
  loaded afterwards. Every report written during a run is on disk at the end of the
  run exactly as it was written, whether the run returns or fails later.
\<close>

theorem reports_written_in_turn:
  assumes "main env a w0 = (r, w)" and "trace w0 = []"
  shows "(\<forall>before m after n.
            trace w = before @ EvPrepare m # after \<and> n \<in> set (prepared_names before) \<longrightarrow>
            (\<exists>doc. EvWrite (report_path a n) doc \<in> set before))
       \<and> (\<forall>before p doc after.
            trace w = before @ EvWrite p doc # after \<longrightarrow>
            loaded_names before = requested_known a \<and> loaded_names after = [] \<and>
            files w p = Some doc)"
proof (intro conjI allI impI)
  fix before m after n
  assume "trace w = before @ EvPrepare m # after \<and> n \<in> set (prepared_names before)"
  then have "trace w = before @ EvPrepare m # after" "n \<in> set (prepared_names before)"
    by simp_all
  with assms show "\<exists>doc. EvWrite (report_path a n) doc \<in> set before"
    by (rule main_prepares)
next
  fix before p doc after
  assume at: "trace w = before @ EvWrite p doc # after"
  from main_writes(2) [OF assms at] show "loaded_names before = requested_known a" .
  from main_writes(3) [OF assms at] show "loaded_names after = []" .
  from main_writes(1) [OF assms at] show "files w p = Some doc" .
qed

theorem reports_written_in_turn_witness:
  "fst (main env_breaks args_two fresh) = Inl EngineError
   \<and> prepared_names (trace (snd (main env_breaks args_two fresh))) = [''geo3k'', ''wemath'']
   \<and> (\<exists>doc. EvWrite (report_path args_two ''geo3k'') doc
               \<in> set (take 14 (trace (snd (main env_breaks args_two fresh)))))
   \<and> loaded_names (take 9 (trace (snd (main env_breaks args_two fresh))))
       = requested_known args_two
   \<and> loaded_names (drop 10 (trace (snd (main env_breaks args_two fresh)))) = []
   \<and> files (snd (main env_breaks args_two fresh)) ''out/geo3k.json''
       = Some (report_doc [PStr ''q1'', PStr ''q2''] [(''accuracy'', PFloat (PyFloat 0 0))] args_two)"
proof -
  have failed: "fst (main env_breaks args_two fresh) = Inl EngineError"
    by code_simp
  have names: "prepared_names (trace (snd (main env_breaks args_two fresh))) = [''geo3k'', ''wemath'']"
    by code_simp
  have begun: "trace (snd (main env_breaks args_two fresh))
                 = take 14 (trace (snd (main env_breaks args_two fresh)))
                   @ EvPrepare ''wemath''
                   # drop 15 (trace (snd (main env_breaks args_two fresh)))
               \<and> ''geo3k'' \<in> set (prepared_names (take 14 (trace (snd (main env_breaks args_two fresh)))))"
    by code_simp
  have wrote: "trace (snd (main env_breaks args_two fresh))
                 = take 9 (trace (snd (main env_breaks args_two fresh)))
                   @ EvWrite ''out/geo3k.json''
                       (report_doc [PStr ''q1'', PStr ''q2''] [(''accuracy'', PFloat (PyFloat 0 0))] args_two)
                   # drop 10 (trace (snd (main env_breaks args_two fresh)))"
    by code_simp
  note whole = reports_written_in_turn [OF run_pair [of env_breaks args_two fresh] fresh_trace]
  from whole [THEN conjunct1, THEN spec, THEN spec, THEN spec, THEN spec, THEN mp, OF begun]
  have c1: "\<exists>doc. EvWrite (report_path args_two ''geo3k'') doc
               \<in> set (take 14 (trace (snd (main env_breaks args_two fresh))))" .
  from whole [THEN conjunct2, THEN spec, THEN spec, THEN spec, THEN spec, THEN mp, OF wrote]
  have c2: "loaded_names (take 9 (trace (snd (main env_breaks args_two fresh))))
       = requested_known args_two
   \<and> loaded_names (drop 10 (trace (snd (main env_breaks args_two fresh)))) = []
   \<and> files (snd (main env_breaks args_two fresh)) ''out/geo3k.json''
       = Some (report_doc [PStr ''q1'', PStr ''q2''] [(''accuracy'', PFloat (PyFloat 0 0))] args_two)" .
  from failed names c1 c2 show ?thesis by blast
qed















end
